theory Spec2Isabelle
  imports Main "HOL-Library.Word" "HOL-Library.Signed_Division"
begin

section \<open>Configuration and basic types (include/event_manager.h)\<close>

text \<open>
  The three sizes are the defaults of the guarded macros of the header.
\<close>

definition EM_MAX_EVENT_TYPES :: nat where
  "EM_MAX_EVENT_TYPES = 64"

definition EM_MAX_SUBSCRIBERS :: nat where
  "EM_MAX_SUBSCRIBERS = 16"

definition EM_ASYNC_QUEUE_SIZE :: nat where
  "EM_ASYNC_QUEUE_SIZE = 32"

text \<open>
  \<open>em_priority_t\<close> is a C enum without negative enumerators. A caller can pass any
  unsigned value, and the code guards with \<open>priority >= EM_PRIORITY_COUNT\<close>, so the type
  is modelled as a natural number with the four enumerators as constants.
\<close>

type_synonym em_priority_t = nat

definition EM_PRIORITY_HIGH :: em_priority_t where
  "EM_PRIORITY_HIGH = 0"

definition EM_PRIORITY_NORMAL :: em_priority_t where
  "EM_PRIORITY_NORMAL = 1"

definition EM_PRIORITY_LOW :: em_priority_t where
  "EM_PRIORITY_LOW = 2"

definition EM_PRIORITY_COUNT :: em_priority_t where
  "EM_PRIORITY_COUNT = 3"

datatype em_mode_t = EM_MODE_SYNC | EM_MODE_ASYNC

datatype em_error_t =
    EM_OK
  | EM_ERR_INVALID_PARAM
  | EM_ERR_NOT_INITIALIZED
  | EM_ERR_ALREADY_INIT
  | EM_ERR_OUT_OF_MEMORY
  | EM_ERR_QUEUE_FULL
  | EM_ERR_QUEUE_EMPTY
  | EM_ERR_MAX_SUBSCRIBERS
  | EM_ERR_NOT_FOUND
  | EM_ERR_MUTEX_FAILED

type_synonym em_event_id_t = "32 word"

text \<open>
  Pointers (payloads, user data, callbacks, owned copies) are addresses; \<open>NULL\<close> is
  address 0. The manager never looks through a payload or user-data pointer except in
  the \<open>memcpy\<close> of an asynchronous publish, whose bytes no claim depends on.
\<close>

type_synonym ptr = nat

abbreviation NULL :: ptr where
  "NULL \<equiv> 0"

text \<open>
  Field names carry a prefix of their struct (\<open>ev_\<close>, \<open>sub_\<close>, \<open>n_\<close>, \<open>q_\<close>,
  \<open>l_\<close>), so that parameters and locals keep the names they have in the C code.
\<close>

record em_event_t =
  ev_id :: em_event_id_t
  ev_data :: ptr
  ev_data_size :: nat
  ev_priority :: em_priority_t
  ev_mode :: em_mode_t

record em_subscriber_t =
  sub_callback :: ptr
  sub_user_data :: ptr
  sub_priority :: em_priority_t
  sub_active :: bool

record em_stats_t =
  events_published :: "32 word"
  events_processed :: "32 word"
  async_queue_current :: "32 word"
  async_queue_max :: "32 word"
  subscribers_total :: "32 word"

section \<open>Internal data structures (src/event_manager.c)\<close>

record em_queue_node_t =
  n_event :: em_event_t
  n_data_copy :: ptr
  n_used :: bool

text \<open>
  \<open>head\<close>, \<open>tail\<close> and both \<open>count\<close> fields are C \<open>int\<close>s. They are modelled as
  mathematical integers: in every state the code can reach they stay between 0 and the
  array size, far from the overflow of a 32-bit \<open>int\<close>. The C operator \<open>%\<close> truncates
  towards zero, which is \<open>smod\<close>.
\<close>

record em_priority_queue_t =
  q_nodes :: "em_queue_node_t list"
  q_head :: int
  q_tail :: int
  q_count :: int

record em_subscriber_list_t =
  l_subscribers :: "em_subscriber_t list"
  l_count :: int
  l_sorted :: bool

text \<open>
  The mutex, the condition variable and the epoll descriptors are left out: every API
  call is modelled as one atomic step of a single thread.
\<close>

record em_manager =
  event_subscribers :: "em_subscriber_list_t list"
  async_queues :: "em_priority_queue_t list"
  stats :: em_stats_t
  running :: bool

text \<open>
  A handle is a pointer to the manager: \<open>None\<close> is the \<open>NULL\<close> handle. The C heap is
  the set of live blocks obtained from \<open>malloc\<close> for payload copies. One invocation of
  a user callback is recorded as the callback with its three arguments.
\<close>

type_synonym em_handle_t = "em_manager option"

type_synonym heap = "ptr set"

type_synonym em_call = "ptr \<times> em_event_id_t \<times> ptr \<times> ptr"

section \<open>Creation\<close>

definition zero_event :: em_event_t where
  "zero_event = \<lparr>ev_id = 0, ev_data = NULL, ev_data_size = 0,
                  ev_priority = EM_PRIORITY_HIGH, ev_mode = EM_MODE_SYNC\<rparr>"

definition zero_stats :: em_stats_t where
  "zero_stats = \<lparr>events_published = 0, events_processed = 0, async_queue_current = 0,
                  async_queue_max = 0, subscribers_total = 0\<rparr>"

definition init_subscriber_list :: em_subscriber_list_t where
  "init_subscriber_list =
     \<lparr>l_subscribers = replicate EM_MAX_SUBSCRIBERS
          \<lparr>sub_callback = NULL, sub_user_data = NULL,
           sub_priority = EM_PRIORITY_HIGH, sub_active = False\<rparr>,
      l_count = 0, l_sorted = True\<rparr>"

definition init_queue :: em_priority_queue_t where
  "init_queue =
     \<lparr>q_nodes = replicate EM_ASYNC_QUEUE_SIZE
          \<lparr>n_event = zero_event, n_data_copy = NULL, n_used = False\<rparr>,
      q_head = 0, q_tail = 0, q_count = 0\<rparr>"

text \<open>
  \<open>em_create\<close>: the argument says whether \<open>calloc\<close> and the initialisation of the
  synchronisation primitives succeeded; if not, the result is the \<open>NULL\<close> handle.
\<close>

definition em_create :: "bool \<Rightarrow> em_handle_t" where
  "em_create resources_ok =
     (if \<not> resources_ok then None
      else Some \<lparr>event_subscribers = replicate EM_MAX_EVENT_TYPES init_subscriber_list,
                 async_queues = replicate EM_PRIORITY_COUNT init_queue,
                 stats = zero_stats,
                 running = False\<rparr>)"

section \<open>Subscribing and unsubscribing\<close>

definition em_subscribe ::
  "em_handle_t \<Rightarrow> em_event_id_t \<Rightarrow> ptr \<Rightarrow> ptr \<Rightarrow> em_priority_t \<Rightarrow> em_error_t \<times> em_handle_t" where
  "em_subscribe handle event_id callback user_data priority =
     (case handle of
        None \<Rightarrow> (EM_ERR_INVALID_PARAM, handle)
      | Some m \<Rightarrow>
          if callback = NULL then (EM_ERR_INVALID_PARAM, handle)
          else if EM_MAX_EVENT_TYPES \<le> unat event_id then (EM_ERR_INVALID_PARAM, handle)
          else if EM_PRIORITY_COUNT \<le> priority then (EM_ERR_INVALID_PARAM, handle)
          else
            let list = event_subscribers m ! unat event_id in
            if int EM_MAX_SUBSCRIBERS \<le> l_count list then (EM_ERR_MAX_SUBSCRIBERS, handle)
            else
              (case find (\<lambda>i. sub_active (l_subscribers list ! i) \<and>
                              sub_callback (l_subscribers list ! i) = callback)
                         [0..<EM_MAX_SUBSCRIBERS] of
                 Some i \<Rightarrow> (EM_OK, handle)
               | None \<Rightarrow>
                   (case find (\<lambda>i. \<not> sub_active (l_subscribers list ! i))
                              [0..<EM_MAX_SUBSCRIBERS] of
                      Some i \<Rightarrow>
                        (EM_OK,
                         Some (m\<lparr>event_subscribers := (event_subscribers m)[unat event_id :=
                                    list\<lparr>l_subscribers := (l_subscribers list)[i :=
                                             \<lparr>sub_callback = callback, sub_user_data = user_data,
                                              sub_priority = priority, sub_active = True\<rparr>],
                                         l_count := l_count list + 1,
                                         l_sorted := False\<rparr>],
                                 stats := (stats m)\<lparr>subscribers_total :=
                                             subscribers_total (stats m) + 1\<rparr>\<rparr>))
                    | None \<Rightarrow> (EM_ERR_MAX_SUBSCRIBERS, handle))))"

definition em_unsubscribe ::
  "em_handle_t \<Rightarrow> em_event_id_t \<Rightarrow> ptr \<Rightarrow> em_error_t \<times> em_handle_t" where
  "em_unsubscribe handle event_id callback =
     (case handle of
        None \<Rightarrow> (EM_ERR_INVALID_PARAM, handle)
      | Some m \<Rightarrow>
          if callback = NULL then (EM_ERR_INVALID_PARAM, handle)
          else if EM_MAX_EVENT_TYPES \<le> unat event_id then (EM_ERR_INVALID_PARAM, handle)
          else
            let list = event_subscribers m ! unat event_id in
            (case find (\<lambda>i. sub_active (l_subscribers list ! i) \<and>
                            sub_callback (l_subscribers list ! i) = callback)
                       [0..<EM_MAX_SUBSCRIBERS] of
               Some i \<Rightarrow>
                 (EM_OK,
                  Some (m\<lparr>event_subscribers := (event_subscribers m)[unat event_id :=
                             list\<lparr>l_subscribers := (l_subscribers list)[i :=
                                      (l_subscribers list ! i)\<lparr>sub_active := False,
                                                               sub_callback := NULL,
                                                               sub_user_data := NULL\<rparr>],
                                  l_count := l_count list - 1\<rparr>],
                          stats := (stats m)\<lparr>subscribers_total :=
                                      subscribers_total (stats m) - 1\<rparr>\<rparr>))
             | None \<Rightarrow> (EM_ERR_NOT_FOUND, handle)))"

text \<open>
  The loop of \<open>em_unsubscribe_all\<close>: one slot per iteration, over the subscriber array
  and the running \<open>subscribers_total\<close>.
\<close>

fun unsubscribe_all_loop ::
  "nat list \<Rightarrow> em_subscriber_t list \<Rightarrow> 32 word \<Rightarrow> em_subscriber_t list \<times> 32 word" where
  "unsubscribe_all_loop [] subs subs_total = (subs, subs_total)"
| "unsubscribe_all_loop (i # rest) subs subs_total =
     (if sub_active (subs ! i)
      then unsubscribe_all_loop rest
             (subs[i := (subs ! i)\<lparr>sub_active := False, sub_callback := NULL,
                                   sub_user_data := NULL\<rparr>])
             (subs_total - 1)
      else unsubscribe_all_loop rest subs subs_total)"

definition em_unsubscribe_all :: "em_handle_t \<Rightarrow> em_event_id_t \<Rightarrow> em_error_t \<times> em_handle_t" where
  "em_unsubscribe_all handle event_id =
     (case handle of
        None \<Rightarrow> (EM_ERR_INVALID_PARAM, handle)
      | Some m \<Rightarrow>
          if EM_MAX_EVENT_TYPES \<le> unat event_id then (EM_ERR_INVALID_PARAM, handle)
          else
            let list = event_subscribers m ! unat event_id;
                (subs, subs_total) = unsubscribe_all_loop [0..<EM_MAX_SUBSCRIBERS]
                                  (l_subscribers list) (subscribers_total (stats m))
            in (EM_OK,
                Some (m\<lparr>event_subscribers := (event_subscribers m)[unat event_id :=
                           list\<lparr>l_subscribers := subs, l_count := 0, l_sorted := True\<rparr>],
                        stats := (stats m)\<lparr>subscribers_total := subs_total\<rparr>\<rparr>)))"

section \<open>Internal functions: sorting, the ring buffers, dispatch\<close>

text \<open>
  The inner \<open>while\<close> loop of \<open>sort_subscribers\<close>: it shifts entries one slot up while
  \<open>j >= 0\<close>, the entry at \<open>j\<close> is active and has a larger priority value than \<open>temp\<close>,
  and returns the array with the final \<open>j\<close>.
\<close>

function sort_shift ::
  "em_subscriber_t list \<Rightarrow> em_subscriber_t \<Rightarrow> int \<Rightarrow> em_subscriber_t list \<times> int" where
  "sort_shift subs temp j =
     (if 0 \<le> j \<and> sub_active (subs ! nat j) \<and> sub_priority temp < sub_priority (subs ! nat j)
      then sort_shift (subs[nat (j + 1) := subs ! nat j]) temp (j - 1)
      else (subs, j))"
  by pat_completeness auto
termination
  by (relation "measure (\<lambda>(subs, temp, j). nat (j + 1))") auto

text \<open>One iteration of the outer \<open>for\<close> loop, for the index \<open>i\<close>.\<close>

definition sort_insert :: "nat \<Rightarrow> em_subscriber_t list \<Rightarrow> em_subscriber_t list" where
  "sort_insert i subs =
     (if \<not> sub_active (subs ! i) then subs
      else
        let temp = subs ! i;
            (subs', j) = sort_shift subs temp (int i - 1)
        in subs'[nat (j + 1) := temp])"

definition sort_subscribers :: "em_subscriber_list_t \<Rightarrow> em_subscriber_list_t" where
  "sort_subscribers list =
     (if l_sorted list \<or> l_count list \<le> 1 then list
      else list\<lparr>l_subscribers := fold sort_insert [1..<EM_MAX_SUBSCRIBERS] (l_subscribers list),
                l_sorted := True\<rparr>)"

text \<open>
  \<open>enqueue_event\<close> and \<open>dequeue_event\<close> return an error code, or else the updated
  queue (and, for the dequeue, the two values written through the out-parameters).
\<close>

definition enqueue_event ::
  "em_priority_queue_t \<Rightarrow> em_event_t \<Rightarrow> ptr \<Rightarrow> em_error_t + em_priority_queue_t" where
  "enqueue_event queue event data_copy =
     (if int EM_ASYNC_QUEUE_SIZE \<le> q_count queue then Inl EM_ERR_QUEUE_FULL
      else
        let idx = nat (q_tail queue) in
        Inr (queue\<lparr>q_nodes := (q_nodes queue)[idx :=
                       \<lparr>n_event = event, n_data_copy = data_copy, n_used = True\<rparr>],
                   q_tail := (q_tail queue + 1) smod int EM_ASYNC_QUEUE_SIZE,
                   q_count := q_count queue + 1\<rparr>))"

definition dequeue_event ::
  "em_priority_queue_t \<Rightarrow> em_error_t + em_priority_queue_t \<times> em_event_t \<times> ptr" where
  "dequeue_event queue =
     (if q_count queue = 0 then Inl EM_ERR_QUEUE_EMPTY
      else
        let idx = nat (q_head queue);
            event = n_event (q_nodes queue ! idx);
            data_copy = n_data_copy (q_nodes queue ! idx)
        in Inr (queue\<lparr>q_nodes := (q_nodes queue)[idx :=
                          (q_nodes queue ! idx)\<lparr>n_used := False, n_data_copy := NULL\<rparr>],
                      q_head := (q_head queue + 1) smod int EM_ASYNC_QUEUE_SIZE,
                      q_count := q_count queue - 1\<rparr>,
                event, data_copy))"

text \<open>
  \<open>dispatch_event\<close> returns the manager after the locked part (sort, snapshot,
  \<open>events_processed++\<close>) and the callback invocations made from the snapshot, in
  order. Callbacks are opaque: what a callback does to the manager by calling the API
  again is a further API call, not part of this function.
\<close>

definition dispatch_event ::
  "em_manager \<Rightarrow> em_event_id_t \<Rightarrow> ptr \<Rightarrow> em_manager \<times> em_call list" where
  "dispatch_event m event_id data =
     (if EM_MAX_EVENT_TYPES \<le> unat event_id then (m, [])
      else
        let list0 = event_subscribers m ! unat event_id;
            list = (if \<not> l_sorted list0 then sort_subscribers list0 else list0);
            subscribers_copy = filter sub_active
                                 (map (\<lambda>i. l_subscribers list ! i) [0..<EM_MAX_SUBSCRIBERS])
        in (m\<lparr>event_subscribers := (event_subscribers m)[unat event_id := list],
              stats := (stats m)\<lparr>events_processed := events_processed (stats m) + 1\<rparr>\<rparr>,
            map (\<lambda>s. (sub_callback s, event_id, data, sub_user_data s))
                (filter (\<lambda>s. sub_callback s \<noteq> NULL) subscribers_copy)))"

section \<open>Publishing\<close>

definition em_publish_sync ::
  "em_handle_t \<Rightarrow> em_event_id_t \<Rightarrow> ptr \<Rightarrow> em_error_t \<times> em_handle_t \<times> em_call list" where
  "em_publish_sync handle event_id data =
     (case handle of
        None \<Rightarrow> (EM_ERR_INVALID_PARAM, handle, [])
      | Some m \<Rightarrow>
          if EM_MAX_EVENT_TYPES \<le> unat event_id then (EM_ERR_INVALID_PARAM, handle, [])
          else
            let m1 = m\<lparr>stats := (stats m)\<lparr>events_published := events_published (stats m) + 1\<rparr>\<rparr>;
                (m2, calls) = dispatch_event m1 event_id data
            in (EM_OK, Some m2, calls))"

text \<open>
  The loop that adds up the three queue counts into a \<open>uint32_t\<close>, as written in
  \<open>em_publish_async\<close> and \<open>em_process_one\<close>.
\<close>

definition queue_total :: "em_manager \<Rightarrow> 32 word" where
  "queue_total m =
     fold (\<lambda>i tot. tot + word_of_int (q_count (async_queues m ! i))) [0..<EM_PRIORITY_COUNT] 0"

text \<open>
  \<open>em_publish_async\<close>. \<open>malloc_ret\<close> is what \<open>malloc\<close> returns if it is called:
  \<open>NULL\<close> when the allocation fails, otherwise the address of a new block.
\<close>

definition em_publish_async ::
  "em_handle_t \<Rightarrow> heap \<Rightarrow> ptr \<Rightarrow> em_event_id_t \<Rightarrow> ptr \<Rightarrow> nat \<Rightarrow> em_priority_t
     \<Rightarrow> em_error_t \<times> em_handle_t \<times> heap" where
  "em_publish_async handle heap malloc_ret event_id data data_size priority =
     (case handle of
        None \<Rightarrow> (EM_ERR_INVALID_PARAM, handle, heap)
      | Some m \<Rightarrow>
          if EM_MAX_EVENT_TYPES \<le> unat event_id then (EM_ERR_INVALID_PARAM, handle, heap)
          else if EM_PRIORITY_COUNT \<le> priority then (EM_ERR_INVALID_PARAM, handle, heap)
          else if data \<noteq> NULL \<and> 0 < data_size \<and> malloc_ret = NULL
          then (EM_ERR_OUT_OF_MEMORY, handle, heap)
          else
            let data_copy = (if data \<noteq> NULL \<and> 0 < data_size then malloc_ret else NULL);
                heap1 = (if data_copy \<noteq> NULL then insert data_copy heap else heap);
                event = \<lparr>ev_id = event_id,
                         ev_data = (if data_copy \<noteq> NULL then data_copy else data),
                         ev_data_size = data_size,
                         ev_priority = priority,
                         ev_mode = EM_MODE_ASYNC\<rparr>
            in (case enqueue_event (async_queues m ! priority) event data_copy of
                  Inr queue' \<Rightarrow>
                    let m1 = m\<lparr>async_queues := (async_queues m)[priority := queue'],
                               stats := (stats m)\<lparr>events_published :=
                                           events_published (stats m) + 1\<rparr>\<rparr>;
                        tot = queue_total m1
                    in (EM_OK,
                        Some (m1\<lparr>stats := (stats m1)
                                   \<lparr>async_queue_current := tot,
                                    async_queue_max := (if async_queue_max (stats m1) < tot
                                                        then tot
                                                        else async_queue_max (stats m1))\<rparr>\<rparr>),
                        heap1)
                | Inl result \<Rightarrow>
                    (result, handle, (if data_copy \<noteq> NULL then heap1 - {data_copy} else heap1))))"

definition em_publish ::
  "em_handle_t \<Rightarrow> heap \<Rightarrow> ptr \<Rightarrow> em_event_t option
     \<Rightarrow> em_error_t \<times> em_handle_t \<times> heap \<times> em_call list" where
  "em_publish handle heap malloc_ret event =
     (case (handle, event) of
        (Some m, Some ev) \<Rightarrow>
          if ev_mode ev = EM_MODE_SYNC
          then (case em_publish_sync handle (ev_id ev) (ev_data ev) of
                  (result, handle', calls) \<Rightarrow> (result, handle', heap, calls))
          else (case em_publish_async handle heap malloc_ret (ev_id ev) (ev_data ev)
                       (ev_data_size ev) (ev_priority ev) of
                  (result, handle', heap') \<Rightarrow> (result, handle', heap', []))
      | _ \<Rightarrow> (EM_ERR_INVALID_PARAM, handle, heap, []))"

section \<open>Processing\<close>

text \<open>
  The \<open>for\<close> loop of \<open>em_process_one\<close> over the priorities still to scan, with the
  current value of \<open>result\<close>. It returns the final \<open>result\<close>, the manager, and the
  dequeued event with its owned copy if one was dequeued.
\<close>

fun process_scan ::
  "nat list \<Rightarrow> em_manager \<Rightarrow> em_error_t \<Rightarrow> em_error_t \<times> em_manager \<times> (em_event_t \<times> ptr) option" where
  "process_scan [] m result = (result, m, None)"
| "process_scan (i # rest) m result =
     (if 0 < q_count (async_queues m ! i)
      then (case dequeue_event (async_queues m ! i) of
              Inr (queue', event, data_copy) \<Rightarrow>
                let m1 = m\<lparr>async_queues := (async_queues m)[i := queue']\<rparr>;
                    tot = queue_total m1
                in (EM_OK, m1\<lparr>stats := (stats m1)\<lparr>async_queue_current := tot\<rparr>\<rparr>,
                    Some (event, data_copy))
            | Inl err \<Rightarrow> process_scan rest m err)
      else process_scan rest m result)"

definition em_process_one ::
  "em_handle_t \<Rightarrow> heap \<Rightarrow> em_error_t \<times> em_handle_t \<times> heap \<times> em_call list" where
  "em_process_one handle heap =
     (case handle of
        None \<Rightarrow> (EM_ERR_INVALID_PARAM, handle, heap, [])
      | Some m \<Rightarrow>
          (case process_scan [0..<EM_PRIORITY_COUNT] m EM_ERR_QUEUE_EMPTY of
             (EM_OK, m1, Some (event, data_copy)) \<Rightarrow>
               let (m2, calls) = dispatch_event m1 (ev_id event) (ev_data event)
               in (EM_OK, Some m2, (if data_copy \<noteq> NULL then heap - {data_copy} else heap), calls)
           | (result, m1, _) \<Rightarrow> (result, Some m1, heap, [])))"

text \<open>
  \<open>em_process_all\<close>. Its \<open>while\<close> loop calls \<open>em_process_one\<close> until that does not
  return \<open>EM_OK\<close>, counting the events. The loop is written as a partial function:
  \<open>None\<close> is a loop that never ends. It is shown below to end for every manager whose
  queues satisfy the ring invariant.
\<close>

partial_function (option) process_all_loop ::
  "em_handle_t \<Rightarrow> heap \<Rightarrow> int \<Rightarrow> em_call list
     \<Rightarrow> (int \<times> em_handle_t \<times> heap \<times> em_call list) option" where
  "process_all_loop handle heap count calls =
     (case em_process_one handle heap of
        (result, handle', heap', calls') \<Rightarrow>
          if result = EM_OK
          then process_all_loop handle' heap' (count + 1) (calls @ calls')
          else Some (count, handle', heap', calls @ calls'))"

declare process_all_loop.simps [code]

definition em_process_all ::
  "em_handle_t \<Rightarrow> heap \<Rightarrow> (int \<times> em_handle_t \<times> heap \<times> em_call list) option" where
  "em_process_all handle heap =
     (case handle of
        None \<Rightarrow> Some (- 1, handle, heap, [])
      | Some m \<Rightarrow> process_all_loop handle heap 0 [])"

definition em_stop_loop :: "em_handle_t \<Rightarrow> em_error_t \<times> em_handle_t" where
  "em_stop_loop handle =
     (case handle of
        None \<Rightarrow> (EM_ERR_INVALID_PARAM, handle)
      | Some m \<Rightarrow> (EM_OK, Some (m\<lparr>running := False\<rparr>)))"

section \<open>Utility functions\<close>

definition em_get_stats :: "em_handle_t \<Rightarrow> bool \<Rightarrow> em_error_t \<times> em_stats_t option" where
  "em_get_stats handle stats_non_null =
     (case handle of
        None \<Rightarrow> (EM_ERR_INVALID_PARAM, None)
      | Some m \<Rightarrow> if \<not> stats_non_null then (EM_ERR_INVALID_PARAM, None)
                  else (EM_OK, Some (stats m)))"

definition em_reset_stats :: "em_handle_t \<Rightarrow> em_error_t \<times> em_handle_t" where
  "em_reset_stats handle =
     (case handle of
        None \<Rightarrow> (EM_ERR_INVALID_PARAM, handle)
      | Some m \<Rightarrow>
          let subscribers = subscribers_total (stats m);
              queue_current = async_queue_current (stats m)
          in (EM_OK,
              Some (m\<lparr>stats := zero_stats\<lparr>subscribers_total := subscribers,
                                           async_queue_current := queue_current\<rparr>\<rparr>)))"

definition em_get_subscriber_count :: "em_handle_t \<Rightarrow> em_event_id_t \<Rightarrow> int" where
  "em_get_subscriber_count handle event_id =
     (case handle of
        None \<Rightarrow> - 1
      | Some m \<Rightarrow> if EM_MAX_EVENT_TYPES \<le> unat event_id then - 1
                  else l_count (event_subscribers m ! unat event_id))"

definition em_has_subscribers :: "em_handle_t \<Rightarrow> em_event_id_t \<Rightarrow> bool" where
  "em_has_subscribers handle event_id = (0 < em_get_subscriber_count handle event_id)"

definition em_get_queue_size :: "em_handle_t \<Rightarrow> int" where
  "em_get_queue_size handle =
     (case handle of
        None \<Rightarrow> - 1
      | Some m \<Rightarrow> fold (\<lambda>i tot. tot + q_count (async_queues m ! i)) [0..<EM_PRIORITY_COUNT] 0)"

text \<open>
  The inner loop of \<open>em_clear_queue\<close> over the nodes of one queue: it frees each owned
  copy, clears the pointer and the \<open>used\<close> flag.
\<close>

fun clear_nodes ::
  "nat list \<Rightarrow> em_queue_node_t list \<Rightarrow> heap \<Rightarrow> em_queue_node_t list \<times> heap" where
  "clear_nodes [] nodes heap = (nodes, heap)"
| "clear_nodes (j # rest) nodes heap =
     (let heap' = (if n_data_copy (nodes ! j) \<noteq> NULL then heap - {n_data_copy (nodes ! j)}
                   else heap)
      in clear_nodes rest (nodes[j := (nodes ! j)\<lparr>n_data_copy := NULL, n_used := False\<rparr>]) heap')"

fun clear_queues ::
  "nat list \<Rightarrow> em_priority_queue_t list \<Rightarrow> heap \<Rightarrow> em_priority_queue_t list \<times> heap" where
  "clear_queues [] queues heap = (queues, heap)"
| "clear_queues (i # rest) queues heap =
     (let queue = queues ! i;
          (nodes, heap') = clear_nodes [0..<EM_ASYNC_QUEUE_SIZE] (q_nodes queue) heap
      in clear_queues rest
           (queues[i := queue\<lparr>q_nodes := nodes, q_head := 0, q_tail := 0, q_count := 0\<rparr>])
           heap')"

definition em_clear_queue :: "em_handle_t \<Rightarrow> heap \<Rightarrow> em_error_t \<times> em_handle_t \<times> heap" where
  "em_clear_queue handle heap =
     (case handle of
        None \<Rightarrow> (EM_ERR_INVALID_PARAM, handle, heap)
      | Some m \<Rightarrow>
          let (queues, heap') = clear_queues [0..<EM_PRIORITY_COUNT] (async_queues m) heap
          in (EM_OK,
              Some (m\<lparr>async_queues := queues,
                      stats := (stats m)\<lparr>async_queue_current := 0\<rparr>\<rparr>),
              heap'))"

section \<open>Sequences of API calls\<close>

text \<open>
  A reachable state is what a sequence of API calls makes of a freshly created manager
  and an empty heap. The first argument of \<open>PublishAsync\<close> and \<open>Publish\<close> is the
  answer of \<open>malloc\<close> for that call. \<open>em_run_loop\<close> is left out: between its waits
  it only calls \<open>em_process_all\<close>. \<open>em_destroy\<close> ends the life of the manager. A
  \<open>ProcessAll\<close> step of a loop that never ends has no next state; the step function keeps
  the state there, and \<open>em_process_all_returns\<close> shows that this does not arise.
\<close>

datatype em_op =
    Subscribe em_event_id_t ptr ptr em_priority_t
  | Unsubscribe em_event_id_t ptr
  | UnsubscribeAll em_event_id_t
  | PublishSync em_event_id_t ptr
  | PublishAsync ptr em_event_id_t ptr nat em_priority_t
  | Publish ptr "em_event_t option"
  | ProcessOne
  | ProcessAll
  | StopLoop
  | ResetStats
  | ClearQueue

fun step :: "em_op \<Rightarrow> em_handle_t \<times> heap \<Rightarrow> em_handle_t \<times> heap" where
  "step (Subscribe event_id callback user_data priority) (handle, heap) =
     (snd (em_subscribe handle event_id callback user_data priority), heap)"
| "step (Unsubscribe event_id callback) (handle, heap) =
     (snd (em_unsubscribe handle event_id callback), heap)"
| "step (UnsubscribeAll event_id) (handle, heap) =
     (snd (em_unsubscribe_all handle event_id), heap)"
| "step (PublishSync event_id data) (handle, heap) =
     (fst (snd (em_publish_sync handle event_id data)), heap)"
| "step (PublishAsync malloc_ret event_id data data_size priority) (handle, heap) =
     snd (em_publish_async handle heap malloc_ret event_id data data_size priority)"
| "step (Publish malloc_ret event) (handle, heap) =
     (case em_publish handle heap malloc_ret event of
        (result, handle', heap', calls) \<Rightarrow> (handle', heap'))"
| "step ProcessOne (handle, heap) =
     (case em_process_one handle heap of
        (result, handle', heap', calls) \<Rightarrow> (handle', heap'))"
| "step ProcessAll (handle, heap) =
     (case em_process_all handle heap of
        Some (count, handle', heap', calls) \<Rightarrow> (handle', heap')
      | None \<Rightarrow> (handle, heap))"
| "step StopLoop (handle, heap) = (snd (em_stop_loop handle), heap)"
| "step ResetStats (handle, heap) = (snd (em_reset_stats handle), heap)"
| "step ClearQueue (handle, heap) = snd (em_clear_queue handle heap)"

definition run :: "em_op list \<Rightarrow> em_handle_t \<times> heap" where
  "run ops = fold step ops (em_create True, {})"

text \<open>
  \<open>em_reset_stats\<close> zeroes the high-water mark \<open>async_queue_max\<close> and keeps the gauge
  \<open>async_queue_current\<close>. When events are queued at that moment, the mark is stale: it
  says 0 while events are pending. \<open>step_stale\<close> follows this along a call: the mark
  becomes stale by an \<open>em_reset_stats\<close> made while events are queued, and stops being
  stale by the next successful asynchronous publish (which raises the mark to the
  gauge), by \<open>em_clear_queue\<close>, or when processing has emptied the queues.
  \<open>max_stale ops\<close> says whether the mark is stale after the calls \<open>ops\<close>.
\<close>

fun step_stale :: "em_op \<Rightarrow> em_handle_t \<times> heap \<Rightarrow> bool \<Rightarrow> bool" where
  "step_stale ResetStats (handle, heap) stale = (0 < em_get_queue_size handle)"
| "step_stale ClearQueue (handle, heap) stale = False"
| "step_stale (PublishAsync malloc_ret event_id data data_size priority) (handle, heap) stale =
     (stale \<and>
      fst (em_publish_async handle heap malloc_ret event_id data data_size priority) \<noteq> EM_OK)"
| "step_stale (Publish malloc_ret event) (handle, heap) stale =
     (stale \<and>
      \<not> (case event of
           None \<Rightarrow> False
         | Some ev \<Rightarrow> ev_mode ev = EM_MODE_ASYNC \<and>
                      fst (em_publish handle heap malloc_ret event) = EM_OK))"
| "step_stale ProcessOne (handle, heap) stale =
     (stale \<and> 0 < em_get_queue_size (fst (step ProcessOne (handle, heap))))"
| "step_stale ProcessAll (handle, heap) stale =
     (stale \<and> 0 < em_get_queue_size (fst (step ProcessAll (handle, heap))))"
| "step_stale op (handle, heap) stale = stale"

fun run_stale :: "em_op list \<Rightarrow> em_handle_t \<times> heap \<Rightarrow> bool \<Rightarrow> bool" where
  "run_stale [] w stale = stale"
| "run_stale (op # ops) w stale = run_stale ops (step op w) (step_stale op w stale)"

definition max_stale :: "em_op list \<Rightarrow> bool" where
  "max_stale ops = run_stale ops (em_create True, {}) False"

section \<open>Well-formed states and the contents of a ring buffer\<close>

text \<open>
  The arrays of the C structs have fixed sizes; \<open>manager_arrays\<close> says that the lists
  of the model have those sizes.
\<close>

definition manager_arrays :: "em_manager \<Rightarrow> bool" where
  "manager_arrays m \<longleftrightarrow>
     length (event_subscribers m) = EM_MAX_EVENT_TYPES \<and>
     (\<forall>list \<in> set (event_subscribers m). length (l_subscribers list) = EM_MAX_SUBSCRIBERS) \<and>
     length (async_queues m) = EM_PRIORITY_COUNT \<and>
     (\<forall>queue \<in> set (async_queues m). length (q_nodes queue) = EM_ASYNC_QUEUE_SIZE)"

text \<open>
  The populated slots of a queue are the \<open>count\<close> indices from \<open>head\<close> on, modulo the
  capacity; the contents of the queue are the nodes in these slots, oldest first.
\<close>

definition queue_slots :: "em_priority_queue_t \<Rightarrow> nat list" where
  "queue_slots queue =
     map (\<lambda>k. (nat (q_head queue) + k) mod EM_ASYNC_QUEUE_SIZE) [0..<nat (q_count queue)]"

definition queue_contents :: "em_priority_queue_t \<Rightarrow> em_queue_node_t list" where
  "queue_contents queue = map (\<lambda>i. q_nodes queue ! i) (queue_slots queue)"

text \<open>
  The invariant of a ring buffer (invariants (d) and (e) of the data model): the indices
  are in range, \<open>tail\<close> is \<open>count\<close> slots after \<open>head\<close>, and exactly the populated
  slots are marked \<open>used\<close>.
\<close>

definition queue_inv :: "em_priority_queue_t \<Rightarrow> bool" where
  "queue_inv queue \<longleftrightarrow>
     length (q_nodes queue) = EM_ASYNC_QUEUE_SIZE \<and>
     0 \<le> q_head queue \<and> q_head queue < int EM_ASYNC_QUEUE_SIZE \<and>
     0 \<le> q_count queue \<and> q_count queue \<le> int EM_ASYNC_QUEUE_SIZE \<and>
     q_tail queue = (q_head queue + q_count queue) mod int EM_ASYNC_QUEUE_SIZE \<and>
     (\<forall>i \<in> {0..<EM_ASYNC_QUEUE_SIZE}.
        n_used (q_nodes queue ! i) \<longleftrightarrow> i \<in> set (queue_slots queue))"

definition queues_inv :: "em_manager \<Rightarrow> bool" where
  "queues_inv m \<longleftrightarrow>
     length (async_queues m) = EM_PRIORITY_COUNT \<and>
     (\<forall>queue \<in> set (async_queues m). queue_inv queue)"

text \<open>Whether a callback has an active slot in a subscriber list.\<close>

definition has_active_slot :: "em_subscriber_list_t \<Rightarrow> ptr \<Rightarrow> bool" where
  "has_active_slot list callback \<longleftrightarrow>
     (\<exists>i \<in> {0..<EM_MAX_SUBSCRIBERS}.
        sub_active (l_subscribers list ! i) \<and> sub_callback (l_subscribers list ! i) = callback)"

text \<open>
  \<open>queue_frame m m'\<close>: the step from \<open>m\<close> to \<open>m'\<close> leaves the queues and the two
  queue statistics alone. \<open>queue_stats_inv\<close> is the invariant that links the queues to
  the gauge \<open>async_queue_current\<close>.
\<close>

definition queue_frame :: "em_manager \<Rightarrow> em_manager \<Rightarrow> bool" where
  "queue_frame m m' \<longleftrightarrow>
     async_queues m' = async_queues m \<and>
     async_queue_current (stats m') = async_queue_current (stats m) \<and>
     async_queue_max (stats m') = async_queue_max (stats m)"

definition queue_stats_inv :: "em_manager \<Rightarrow> bool" where
  "queue_stats_inv m \<longleftrightarrow>
     queues_inv m \<and> async_queue_current (stats m) = queue_total m"

text \<open>
  What holds of the mark: while it is stale, it is 0 and events are queued; otherwise
  the gauge does not exceed it.
\<close>

definition mark_inv :: "em_manager \<Rightarrow> bool \<Rightarrow> bool" where
  "mark_inv m stale \<longleftrightarrow>
     (if stale
      then async_queue_max (stats m) = 0 \<and> 0 < em_get_queue_size (Some m)
      else async_queue_current (stats m) \<le> async_queue_max (stats m))"

text \<open>Whether a callback is subscribed to an event, seen through a handle.\<close>

definition is_subscribed :: "em_handle_t \<Rightarrow> em_event_id_t \<Rightarrow> ptr \<Rightarrow> bool" where
  "is_subscribed handle event_id callback =
     (case handle of
        None \<Rightarrow> False
      | Some m \<Rightarrow> unat event_id < EM_MAX_EVENT_TYPES \<and>
                  has_active_slot (event_subscribers m ! unat event_id) callback)"

section \<open>The ring buffers\<close>


lemma ring_index_le:
  assumes "k \<le> k'" "k' < n" "(h + k) mod n = (h + k') mod n"
  shows "k = (k'::nat)"
proof -
  have "n dvd (h + k') - (h + k)"
    using assms by (metis add_le_cancel_left mod_eq_dvd_iff_nat)
  then have "n dvd k' - k" by simp
  moreover have "k' - k < n" using assms by simp
  ultimately have "k' - k = 0" by (meson dvd_imp_le not_less zero_less_iff_neq_zero)
  with assms show ?thesis by simp
qed

lemma ring_index_inj:
  "k < n \<Longrightarrow> k' < n \<Longrightarrow> (h + k) mod n = (h + k') mod n \<Longrightarrow> k = (k'::nat)"
  using ring_index_le [of k k' n h] ring_index_le [of k' k n h]
  by (cases "k \<le> k'") auto

lemma queue_size_pos: "0 < EM_ASYNC_QUEUE_SIZE"
  by (simp add: EM_ASYNC_QUEUE_SIZE_def)

lemma queue_slots_bound: "i \<in> set (queue_slots q) \<Longrightarrow> i < EM_ASYNC_QUEUE_SIZE"
  by (auto simp: queue_slots_def queue_size_pos)

lemma queue_inv_nat:
  assumes "queue_inv q"
  shows "nat (q_head q) < EM_ASYNC_QUEUE_SIZE" and "nat (q_count q) \<le> EM_ASYNC_QUEUE_SIZE"
    and "length (q_nodes q) = EM_ASYNC_QUEUE_SIZE" and "0 \<le> q_head q" and "0 \<le> q_count q"
  using assms by (auto simp: queue_inv_def nat_less_iff nat_le_iff)

lemma tail_slot:
  assumes "queue_inv q"
  shows "nat (q_tail q) = (nat (q_head q) + nat (q_count q)) mod EM_ASYNC_QUEUE_SIZE"
proof -
  have "q_tail q = int ((nat (q_head q) + nat (q_count q)) mod EM_ASYNC_QUEUE_SIZE)"
    using assms by (simp add: queue_inv_def zmod_int)
  then show ?thesis by simp
qed

lemma tail_slot_bound:
  assumes "queue_inv q"
  shows "nat (q_tail q) < EM_ASYNC_QUEUE_SIZE"
  by (simp add: tail_slot [OF assms] queue_size_pos)

lemma tail_not_in_slots:
  assumes "queue_inv q" "q_count q < int EM_ASYNC_QUEUE_SIZE"
  shows "nat (q_tail q) \<notin> set (queue_slots q)"
proof
  assume "nat (q_tail q) \<in> set (queue_slots q)"
  then obtain k where k: "k < nat (q_count q)"
    "(nat (q_head q) + k) mod EM_ASYNC_QUEUE_SIZE = nat (q_tail q)"
    by (auto simp: queue_slots_def)
  have c: "nat (q_count q) < EM_ASYNC_QUEUE_SIZE"
    using assms(2) queue_size_pos by arith
  have "k = nat (q_count q)"
  proof (rule ring_index_inj)
    show "k < EM_ASYNC_QUEUE_SIZE" using k c by simp
    show "nat (q_count q) < EM_ASYNC_QUEUE_SIZE" by (rule c)
    show "(nat (q_head q) + k) mod EM_ASYNC_QUEUE_SIZE
          = (nat (q_head q) + nat (q_count q)) mod EM_ASYNC_QUEUE_SIZE"
      using k assms by (simp add: tail_slot)
  qed
  with k show False by simp
qed

lemma enqueue_event_full:
  "int EM_ASYNC_QUEUE_SIZE \<le> q_count q \<Longrightarrow> enqueue_event q ev dc = Inl EM_ERR_QUEUE_FULL"
  by (simp add: enqueue_event_def)

lemma enqueue_event_Inr:
  assumes "enqueue_event q ev dc = Inr q'"
  shows "q_count q < int EM_ASYNC_QUEUE_SIZE"
    and "q' = q\<lparr>q_nodes := (q_nodes q)[nat (q_tail q) :=
                       \<lparr>n_event = ev, n_data_copy = dc, n_used = True\<rparr>],
                   q_tail := (q_tail q + 1) smod int EM_ASYNC_QUEUE_SIZE,
                   q_count := q_count q + 1\<rparr>"
  using assms by (simp_all add: enqueue_event_def Let_def split: if_splits)

lemma enqueue_event_not_full:
  "q_count q < int EM_ASYNC_QUEUE_SIZE \<Longrightarrow> \<exists>q'. enqueue_event q ev dc = Inr q'"
  by (simp add: enqueue_event_def Let_def)

lemma slots_enq:
  assumes "queue_inv q" "enqueue_event q ev dc = Inr q'"
  shows "queue_slots q' = queue_slots q @ [nat (q_tail q)]"
proof -
  note q' = enqueue_event_Inr [OF assms(2)]
  have "nat (q_count q + 1) = Suc (nat (q_count q))"
    using assms(1) by (simp add: queue_inv_def nat_add_distrib)
  then show ?thesis
    using assms(1) by (simp add: queue_slots_def q'(2) tail_slot)
qed

lemma contents_enq:
  assumes "queue_inv q" "enqueue_event q ev dc = Inr q'"
  shows "queue_contents q' =
         queue_contents q @ [\<lparr>n_event = ev, n_data_copy = dc, n_used = True\<rparr>]"
proof -
  note q' = enqueue_event_Inr [OF assms(2)]
  have t: "nat (q_tail q) < length (q_nodes q)"
    using assms(1) tail_slot_bound [of q] by (simp add: queue_inv_def)
  have ne: "\<And>i. i \<in> set (queue_slots q) \<Longrightarrow> nat (q_tail q) \<noteq> i"
    using tail_not_in_slots [OF assms(1) q'(1)] by blast
  have "map (\<lambda>i. q_nodes q' ! i) (queue_slots q) = queue_contents q"
    unfolding queue_contents_def
    by (intro map_cong) (simp_all add: q'(2) ne)
  then show ?thesis
    using t by (simp add: queue_contents_def slots_enq [OF assms]) (simp add: q'(2))
qed

lemma inv_enq:
  assumes "queue_inv q" "enqueue_event q ev dc = Inr q'"
  shows "queue_inv q'"
proof -
  note q' = enqueue_event_Inr [OF assms(2)]
  have t: "nat (q_tail q) < EM_ASYNC_QUEUE_SIZE"
    using assms(1) by (simp add: tail_slot_bound)
  have tl: "(q_tail q + 1) smod int EM_ASYNC_QUEUE_SIZE
            = (q_head q + (q_count q + 1)) mod int EM_ASYNC_QUEUE_SIZE"
  proof -
    have "0 \<le> q_tail q" using assms(1) by (simp add: queue_inv_def queue_size_pos)
    then have "(q_tail q + 1) smod int EM_ASYNC_QUEUE_SIZE
               = (q_tail q + 1) mod int EM_ASYNC_QUEUE_SIZE"
      by (simp add: smod_mod_positive queue_size_pos)
    also have "\<dots> = (q_head q + q_count q + 1) mod int EM_ASYNC_QUEUE_SIZE"
      using assms(1) by (simp add: queue_inv_def mod_add_left_eq)
    finally show ?thesis by (simp add: add.assoc)
  qed
  have used: "\<forall>i \<in> {0..<EM_ASYNC_QUEUE_SIZE}.
        n_used (q_nodes q' ! i) \<longleftrightarrow> i \<in> set (queue_slots q')"
  proof
    fix i assume i: "i \<in> {0..<EM_ASYNC_QUEUE_SIZE}"
    show "n_used (q_nodes q' ! i) \<longleftrightarrow> i \<in> set (queue_slots q')"
    proof (cases "i = nat (q_tail q)")
      case True
      then show ?thesis
        using assms(1) t by (simp add: slots_enq [OF assms]) (simp add: q'(2) queue_inv_def)
    next
      case False
      then have "n_used (q_nodes q' ! i) = n_used (q_nodes q ! i)"
        by (simp add: q'(2))
      then show ?thesis
        using assms(1) i False by (simp add: slots_enq [OF assms]) (simp add: queue_inv_def)
    qed
  qed
  have "length (q_nodes q') = EM_ASYNC_QUEUE_SIZE" "q_head q' = q_head q"
       "q_count q' = q_count q + 1" "q_tail q' = (q_tail q + 1) smod int EM_ASYNC_QUEUE_SIZE"
    using assms(1) by (simp_all add: q'(2) queue_inv_def)
  then show ?thesis
    unfolding queue_inv_def
    using used tl assms(1) q'(1)
    by (simp add: queue_inv_def)
qed

subsection \<open>Dequeue\<close>

lemma dequeue_event_empty: "q_count q = 0 \<Longrightarrow> dequeue_event q = Inl EM_ERR_QUEUE_EMPTY"
  by (simp add: dequeue_event_def)

lemma dequeue_event_Inr:
  assumes "dequeue_event q = Inr (q', ev, dc)"
  shows "q_count q \<noteq> 0"
    and "q' = q\<lparr>q_nodes := (q_nodes q)[nat (q_head q) :=
                          (q_nodes q ! nat (q_head q))\<lparr>n_used := False, n_data_copy := NULL\<rparr>],
                      q_head := (q_head q + 1) smod int EM_ASYNC_QUEUE_SIZE,
                      q_count := q_count q - 1\<rparr>"
    and "ev = n_event (q_nodes q ! nat (q_head q))"
    and "dc = n_data_copy (q_nodes q ! nat (q_head q))"
  using assms by (simp_all add: dequeue_event_def Let_def split: if_splits)

lemma dequeue_event_nonempty:
  "q_count q \<noteq> 0 \<Longrightarrow> \<exists>q' ev dc. dequeue_event q = Inr (q', ev, dc)"
  by (simp add: dequeue_event_def Let_def)

lemma head_next:
  assumes "queue_inv q"
  shows "nat ((q_head q + 1) smod int EM_ASYNC_QUEUE_SIZE)
         = (nat (q_head q) + 1) mod EM_ASYNC_QUEUE_SIZE"
proof -
  have "(q_head q + 1) smod int EM_ASYNC_QUEUE_SIZE = (q_head q + 1) mod int EM_ASYNC_QUEUE_SIZE"
    using queue_inv_nat(4) [OF assms] by (simp add: smod_mod_positive queue_size_pos)
  also have "\<dots> = int ((nat (q_head q) + 1) mod EM_ASYNC_QUEUE_SIZE)"
    using queue_inv_nat(4) [OF assms] by (simp add: zmod_int ac_simps)
  finally show ?thesis by simp
qed

lemma slots_nonempty:
  assumes "queue_inv q" "q_count q \<noteq> 0"
  shows "queue_slots q = nat (q_head q) #
           map (\<lambda>k. ((nat (q_head q) + 1) mod EM_ASYNC_QUEUE_SIZE + k) mod EM_ASYNC_QUEUE_SIZE)
               [0..<nat (q_count q - 1)]"
proof -
  obtain c where c: "nat (q_count q) = Suc c" "nat (q_count q - 1) = c"
    using assms by (cases "nat (q_count q)") (auto simp: queue_inv_def)
  have h: "nat (q_head q) mod EM_ASYNC_QUEUE_SIZE = nat (q_head q)"
    using queue_inv_nat(1) [OF assms(1)] by simp
  have "[0..<Suc c] = 0 # map Suc [0..<c]"
    by (simp add: upt_conv_Cons map_Suc_upt del: upt_Suc)
  then show ?thesis
    by (simp add: queue_slots_def c h mod_add_left_eq del: upt_Suc)
qed

lemma slots_deq:
  assumes "queue_inv q" "dequeue_event q = Inr (q', ev, dc)"
  shows "queue_slots q = nat (q_head q) # queue_slots q'"
proof -
  note q' = dequeue_event_Inr [OF assms(2)]
  show ?thesis
    using slots_nonempty [OF assms(1) q'(1)] head_next [OF assms(1)]
    by (simp add: q'(2) queue_slots_def)
qed

lemma slots_distinct:
  assumes "queue_inv q"
  shows "distinct (queue_slots q)"
proof -
  have "inj_on (\<lambda>k. (nat (q_head q) + k) mod EM_ASYNC_QUEUE_SIZE) {0..<nat (q_count q)}"
  proof (rule inj_onI)
    fix k k' assume "k \<in> {0..<nat (q_count q)}" "k' \<in> {0..<nat (q_count q)}"
      and "(nat (q_head q) + k) mod EM_ASYNC_QUEUE_SIZE = (nat (q_head q) + k') mod EM_ASYNC_QUEUE_SIZE"
    moreover have "nat (q_count q) \<le> EM_ASYNC_QUEUE_SIZE"
      by (rule queue_inv_nat(2) [OF assms])
    ultimately show "k = k'"
      using ring_index_inj [of k EM_ASYNC_QUEUE_SIZE k' "nat (q_head q)"] by simp
  qed
  then show ?thesis
    by (simp add: queue_slots_def distinct_map)
qed

lemma contents_deq:
  assumes "queue_inv q" "dequeue_event q = Inr (q', ev, dc)"
  shows "queue_contents q = q_nodes q ! nat (q_head q) # queue_contents q'"
proof -
  note q' = dequeue_event_Inr [OF assms(2)]
  note sl = slots_deq [OF assms]
  have "nat (q_head q) \<notin> set (queue_slots q')"
    using slots_distinct [OF assms(1)] by (simp add: sl)
  then have ne: "\<And>i. i \<in> set (queue_slots q') \<Longrightarrow> nat (q_head q) \<noteq> i"
    by blast
  have "map (\<lambda>i. q_nodes q ! i) (queue_slots q') = queue_contents q'"
    unfolding queue_contents_def
    by (intro map_cong) (simp_all add: q'(2) ne)
  then show ?thesis
    by (simp add: queue_contents_def sl)
qed

lemma inv_deq:
  assumes "queue_inv q" "dequeue_event q = Inr (q', ev, dc)"
  shows "queue_inv q'"
proof -
  note q' = dequeue_event_Inr [OF assms(2)]
  note sl = slots_deq [OF assms]
  have hn: "nat (q_head q) \<notin> set (queue_slots q')"
    using slots_distinct [OF assms(1)] by (simp add: sl)
  have hb: "nat (q_head q) < EM_ASYNC_QUEUE_SIZE"
    by (rule queue_inv_nat(1) [OF assms(1)])
  have fields: "length (q_nodes q') = EM_ASYNC_QUEUE_SIZE" "q_tail q' = q_tail q"
       "q_count q' = q_count q - 1" "q_head q' = (q_head q + 1) smod int EM_ASYNC_QUEUE_SIZE"
    using assms(1) by (simp_all add: q'(2) queue_inv_def)
  have hd': "q_head q' = (q_head q + 1) mod int EM_ASYNC_QUEUE_SIZE"
    using assms(1) by (simp add: fields smod_mod_positive queue_size_pos queue_inv_def)
  have tl: "q_tail q' = (q_head q' + q_count q') mod int EM_ASYNC_QUEUE_SIZE"
  proof -
    have "(q_head q' + q_count q') mod int EM_ASYNC_QUEUE_SIZE
          = ((q_head q + 1) + (q_count q - 1)) mod int EM_ASYNC_QUEUE_SIZE"
      unfolding hd' fields(3) by (simp add: mod_add_left_eq)
    then show ?thesis using assms(1) by (simp add: fields queue_inv_def)
  qed
  have used: "\<forall>i \<in> {0..<EM_ASYNC_QUEUE_SIZE}.
        n_used (q_nodes q' ! i) \<longleftrightarrow> i \<in> set (queue_slots q')"
  proof
    fix i assume i: "i \<in> {0..<EM_ASYNC_QUEUE_SIZE}"
    show "n_used (q_nodes q' ! i) \<longleftrightarrow> i \<in> set (queue_slots q')"
    proof (cases "i = nat (q_head q)")
      case True
      then show ?thesis
        using assms(1) hn hb by (simp add: q'(2) queue_inv_def)
    next
      case False
      then have "n_used (q_nodes q' ! i) = n_used (q_nodes q ! i)"
        by (simp add: q'(2))
      moreover have "n_used (q_nodes q ! i) \<longleftrightarrow> i \<in> set (queue_slots q)"
        using assms(1) i by (simp add: queue_inv_def)
      ultimately show ?thesis
        using False by (simp add: sl)
    qed
  qed
  have "0 \<le> q_head q'" "q_head q' < int EM_ASYNC_QUEUE_SIZE"
    unfolding hd' by (simp_all add: queue_size_pos)
  moreover have "0 \<le> q_count q'" "q_count q' \<le> int EM_ASYNC_QUEUE_SIZE"
    using assms(1) q'(1) by (simp_all add: fields queue_inv_def)
  ultimately show ?thesis
    unfolding queue_inv_def using used tl fields(1) by simp
qed

lemma queue_inv_init: "queue_inv init_queue"
  by (simp add: queue_inv_def init_queue_def queue_slots_def queue_size_pos)

lemma enqueue_event_Inl: "enqueue_event q ev dc = Inl err \<Longrightarrow> err = EM_ERR_QUEUE_FULL"
  by (simp add: enqueue_event_def Let_def split: if_splits)

lemma dequeue_event_Inl: "dequeue_event q = Inl err \<Longrightarrow> err = EM_ERR_QUEUE_EMPTY"
  by (simp add: dequeue_event_def Let_def split: if_splits)

section \<open>The queue statistics\<close>


lemma em_subscribe_frame:
  "\<exists>m'. snd (em_subscribe (Some m) e c u p) = Some m' \<and> queue_frame m m'"
  by (auto simp: em_subscribe_def queue_frame_def Let_def split: option.splits)

lemma em_unsubscribe_frame:
  "\<exists>m'. snd (em_unsubscribe (Some m) e c) = Some m' \<and> queue_frame m m'"
  by (auto simp: em_unsubscribe_def queue_frame_def Let_def split: option.splits)

lemma em_unsubscribe_all_frame:
  "\<exists>m'. snd (em_unsubscribe_all (Some m) e) = Some m' \<and> queue_frame m m'"
  by (auto simp: em_unsubscribe_all_def queue_frame_def Let_def split: option.splits prod.splits)

lemma dispatch_event_frame:
  "queue_frame m (fst (dispatch_event m e d))"
  by (simp add: dispatch_event_def queue_frame_def Let_def)

lemma em_publish_sync_frame:
  "\<exists>m'. fst (snd (em_publish_sync (Some m) e d)) = Some m' \<and> queue_frame m m'"
  using dispatch_event_frame [of "m\<lparr>stats := (stats m)\<lparr>events_published := events_published (stats m) + 1\<rparr>\<rparr>" e d]
  by (auto simp: em_publish_sync_def queue_frame_def Let_def split: prod.splits)

lemma em_stop_loop_frame:
  "\<exists>m'. snd (em_stop_loop (Some m)) = Some m' \<and> queue_frame m m'"
  by (simp add: em_stop_loop_def queue_frame_def)

lemma upt_priorities: "[0..<EM_PRIORITY_COUNT] = [0, 1, 2]"
  by (simp add: EM_PRIORITY_COUNT_def numeral_3_eq_3)

lemma queue_total_eq:
  "queue_total m = word_of_int (em_get_queue_size (Some m))"
  by (simp add: queue_total_def em_get_queue_size_def upt_priorities)

lemma queue_total_cong:
  "async_queues m' = async_queues m \<Longrightarrow> queue_total m' = queue_total m"
  by (simp add: queue_total_def)

lemma queue_size_sum:
  "em_get_queue_size (Some m) =
     q_count (async_queues m ! 0) + q_count (async_queues m ! 1) + q_count (async_queues m ! 2)"
  by (simp add: em_get_queue_size_def upt_priorities)

lemma queue_size_bounds:
  assumes "queues_inv m"
  shows "0 \<le> em_get_queue_size (Some m)" and "em_get_queue_size (Some m) \<le> 96"
proof -
  have "\<And>i. i < 3 \<Longrightarrow> 0 \<le> q_count (async_queues m ! i) \<and> q_count (async_queues m ! i) \<le> 32"
    using assms by (simp add: queues_inv_def queue_inv_def EM_PRIORITY_COUNT_def EM_ASYNC_QUEUE_SIZE_def)
  from this [of 0] this [of 1] this [of 2]
  show "0 \<le> em_get_queue_size (Some m)" and "em_get_queue_size (Some m) \<le> 96"
    by (simp_all add: queue_size_sum)
qed

lemma uint_queue_total:
  assumes "queues_inv m"
  shows "uint (queue_total m) = em_get_queue_size (Some m)"
  using queue_size_bounds [OF assms]
  by (simp add: queue_total_eq uint_word_of_int take_bit_int_eq_self)


lemma queue_stats_inv_frame:
  "queue_frame m m' \<Longrightarrow> queue_stats_inv m \<Longrightarrow> queue_stats_inv m'"
  by (simp add: queue_frame_def queue_stats_inv_def queues_inv_def queue_total_def)

lemma queues_inv_update:
  assumes "queues_inv m" "queue_inv q'"
  shows "queues_inv (m\<lparr>async_queues := (async_queues m)[i := q']\<rparr>)"
proof -
  have "set ((async_queues m)[i := q']) \<subseteq> insert q' (set (async_queues m))"
    by (rule set_update_subset_insert)
  then show ?thesis
    using assms by (auto simp: queues_inv_def)
qed

lemma queues_inv_nth:
  "queues_inv m \<Longrightarrow> i < EM_PRIORITY_COUNT \<Longrightarrow> queue_inv (async_queues m ! i)"
  by (simp add: queues_inv_def)

lemma queue_size_update:
  assumes "length (async_queues m) = EM_PRIORITY_COUNT" "i < EM_PRIORITY_COUNT"
  shows "em_get_queue_size (Some (m\<lparr>async_queues := (async_queues m)[i := q']\<rparr>))
         = em_get_queue_size (Some m) - q_count (async_queues m ! i) + q_count q'"
proof -
  have "i = 0 \<or> i = 1 \<or> i = 2"
    using assms(2) by (auto simp: EM_PRIORITY_COUNT_def)
  then show ?thesis
    using assms(1) by (auto simp: queue_size_sum EM_PRIORITY_COUNT_def)
qed

lemma word_le_queue_total:
  assumes "queues_inv m" "queues_inv m'"
    and "em_get_queue_size (Some m') \<le> em_get_queue_size (Some m)"
  shows "queue_total m' \<le> queue_total m"
  using assms by (simp add: word_le_def uint_queue_total)

subsection \<open>Updating one queue\<close>

lemma queues_inv_stats: "queues_inv (m\<lparr>stats := s\<rparr>) = queues_inv m"
  by (simp add: queues_inv_def)

lemma queue_total_stats: "queue_total (m\<lparr>stats := s\<rparr>) = queue_total m"
  by (simp add: queue_total_def)

lemma queues_inv_enq:
  assumes "queues_inv m" "p < EM_PRIORITY_COUNT"
    and "enqueue_event (async_queues m ! p) ev dc = Inr q'"
  shows "queues_inv (m\<lparr>async_queues := (async_queues m)[p := q']\<rparr>)"
  using assms(1) inv_enq [OF queues_inv_nth [OF assms(1,2)] assms(3)]
  by (rule queues_inv_update)

subsection \<open>Processing keeps the invariant\<close>

lemma process_scan_skip:
  "\<not> 0 < q_count (async_queues m ! i) \<Longrightarrow> process_scan (i # rest) m r = process_scan rest m r"
  by simp

lemma process_scan_dequeue:
  "0 < q_count (async_queues m ! i) \<Longrightarrow>
   dequeue_event (async_queues m ! i) = Inr (q', ev, dc) \<Longrightarrow>
   process_scan (i # rest) m r =
     (EM_OK,
      m\<lparr>async_queues := (async_queues m)[i := q'],
        stats := (stats m)\<lparr>async_queue_current :=
                    queue_total (m\<lparr>async_queues := (async_queues m)[i := q']\<rparr>)\<rparr>\<rparr>,
      Some (ev, dc))"
  by (simp add: Let_def)

lemma process_scan_error:
  "0 < q_count (async_queues m ! i) \<Longrightarrow>
   dequeue_event (async_queues m ! i) = Inl err \<Longrightarrow>
   process_scan (i # rest) m r = process_scan rest m err"
  by simp

lemma queues_inv_deq:
  assumes "queues_inv m" "i < EM_PRIORITY_COUNT"
    and "dequeue_event (async_queues m ! i) = Inr (q', ev, dc)"
  shows "queues_inv (m\<lparr>async_queues := (async_queues m)[i := q']\<rparr>)"
  using assms(1) inv_deq [OF queues_inv_nth [OF assms(1,2)] assms(3)]
  by (rule queues_inv_update)

lemma queue_total_deq:
  assumes "queues_inv m" "i < EM_PRIORITY_COUNT"
    and "dequeue_event (async_queues m ! i) = Inr (q', ev, dc)"
  shows "queue_total (m\<lparr>async_queues := (async_queues m)[i := q']\<rparr>) \<le> queue_total m"
proof -
  have "q_count q' = q_count (async_queues m ! i) - 1"
    using dequeue_event_Inr(2) [OF assms(3)] by simp
  then have "em_get_queue_size (Some (m\<lparr>async_queues := (async_queues m)[i := q']\<rparr>))
             \<le> em_get_queue_size (Some m)"
    using assms(1,2) by (simp add: queue_size_update queues_inv_def)
  then show ?thesis
    using assms(1) queues_inv_deq [OF assms] by (simp add: word_le_queue_total)
qed

lemma process_scan_inv:
  assumes "queue_stats_inv m" "set js \<subseteq> {0..<EM_PRIORITY_COUNT}"
  shows "queue_stats_inv (fst (snd (process_scan js m r))) \<and>
         (async_queue_current (stats m) \<le> async_queue_max (stats m) \<longrightarrow>
          async_queue_current (stats (fst (snd (process_scan js m r))))
            \<le> async_queue_max (stats (fst (snd (process_scan js m r)))))"
  using assms
proof (induction js arbitrary: r)
  case Nil
  then show ?case by simp
next
  case (Cons i rest)
  have i: "i < EM_PRIORITY_COUNT" using Cons.prems by simp
  have rest: "set rest \<subseteq> {0..<EM_PRIORITY_COUNT}" using Cons.prems by simp
  have qs: "queues_inv m" and cur: "async_queue_current (stats m) = queue_total m"
    using Cons.prems by (simp_all add: queue_stats_inv_def)
  show ?case
  proof (cases "0 < q_count (async_queues m ! i)")
    case False
    show ?thesis
      unfolding process_scan_skip [OF False] by (rule Cons.IH [OF Cons.prems(1) rest])
  next
    case True
    show ?thesis
    proof (cases "dequeue_event (async_queues m ! i)")
      case (Inl err)
      show ?thesis
        unfolding process_scan_error [OF True Inl] by (rule Cons.IH [OF Cons.prems(1) rest])
    next
      case (Inr x)
      obtain q' ev dc where x: "x = (q', ev, dc)" by (cases x) auto
      note deq = Inr [unfolded x]
      have q1: "queues_inv (m\<lparr>async_queues := (async_queues m)[i := q']\<rparr>)"
        using qs i deq by (rule queues_inv_deq)
      have le: "queue_total (m\<lparr>async_queues := (async_queues m)[i := q']\<rparr>) \<le> queue_total m"
        using qs i deq by (rule queue_total_deq)
      show ?thesis
        unfolding process_scan_dequeue [OF True deq]
        using q1 le cur
        by (auto simp: queue_stats_inv_def queues_inv_stats queue_total_stats intro: order_trans)
    qed
  qed
qed

lemma em_process_one_inv:
  assumes "queue_stats_inv m"
  shows "\<exists>m'. fst (snd (em_process_one (Some m) heap)) = Some m' \<and>
           queue_stats_inv m' \<and>
           (async_queue_current (stats m) \<le> async_queue_max (stats m) \<longrightarrow>
            async_queue_current (stats m') \<le> async_queue_max (stats m'))"
proof -
  obtain r m1 x where scan: "process_scan [0..<EM_PRIORITY_COUNT] m EM_ERR_QUEUE_EMPTY = (r, m1, x)"
    by (cases "process_scan [0..<EM_PRIORITY_COUNT] m EM_ERR_QUEUE_EMPTY") auto
  have inv1: "queue_stats_inv m1 \<and>
         (async_queue_current (stats m) \<le> async_queue_max (stats m) \<longrightarrow>
          async_queue_current (stats m1) \<le> async_queue_max (stats m1))"
    using process_scan_inv [OF assms, of "[0..<EM_PRIORITY_COUNT]" EM_ERR_QUEUE_EMPTY]
    by (simp add: scan)
  show ?thesis
  proof (cases "\<exists>ev dc. r = EM_OK \<and> x = Some (ev, dc)")
    case True
    then obtain ev dc where okx: "r = EM_OK" "x = Some (ev, dc)" by auto
    have fr: "queue_frame m1 (fst (dispatch_event m1 (ev_id ev) (ev_data ev)))"
      by (rule dispatch_event_frame)
    have "fst (snd (em_process_one (Some m) heap))
          = Some (fst (dispatch_event m1 (ev_id ev) (ev_data ev)))"
      by (simp add: em_process_one_def scan okx split: prod.splits)
    then show ?thesis
      using inv1 fr queue_stats_inv_frame [OF fr] by (auto simp: queue_frame_def)
  next
    case False
    then have "fst (snd (em_process_one (Some m) heap)) = Some m1"
      by (auto simp: em_process_one_def scan split: em_error_t.splits option.splits)
    then show ?thesis using inv1 by simp
  qed
qed


subsection \<open>Clearing keeps the invariant\<close>

lemma clear_nodes_length: "length (fst (clear_nodes js nodes heap)) = length nodes"
  by (induction js arbitrary: nodes heap) (simp_all add: Let_def)

lemma clear_nodes_used:
  "j < length nodes \<Longrightarrow>
   n_used (fst (clear_nodes js nodes heap) ! j) \<longleftrightarrow> j \<notin> set js \<and> n_used (nodes ! j)"
proof (induction js arbitrary: nodes heap)
  case Nil
  then show ?case by simp
next
  case (Cons i rest)
  then show ?case
    by (cases "i = j") (simp_all add: Let_def)
qed

lemma queue_inv_cleared:
  assumes "length nodes = EM_ASYNC_QUEUE_SIZE"
  shows "queue_inv (q\<lparr>q_nodes := fst (clear_nodes [0..<EM_ASYNC_QUEUE_SIZE] nodes heap),
                      q_head := 0, q_tail := 0, q_count := 0\<rparr>)"
  using assms
  by (simp add: queue_inv_def clear_nodes_length clear_nodes_used queue_slots_def queue_size_pos)

lemma clear_queues_result:
  assumes "\<forall>q \<in> set queues. length (q_nodes q) = EM_ASYNC_QUEUE_SIZE"
  shows "length (fst (clear_queues js queues heap)) = length queues \<and>
         (\<forall>i < length queues.
            if i \<in> set js
            then queue_inv (fst (clear_queues js queues heap) ! i) \<and>
                 q_count (fst (clear_queues js queues heap) ! i) = 0
            else fst (clear_queues js queues heap) ! i = queues ! i)"
  using assms
proof (induction js arbitrary: queues heap)
  case Nil
  then show ?case by simp
next
  case (Cons j rest)
  define nh where "nh = clear_nodes [0..<EM_ASYNC_QUEUE_SIZE] (q_nodes (queues ! j)) heap"
  define cq where "cq = (queues ! j)\<lparr>q_nodes := fst nh, q_head := 0, q_tail := 0, q_count := 0\<rparr>"
  define queues1 where "queues1 = queues[j := cq]"
  have step: "clear_queues (j # rest) queues heap = clear_queues rest queues1 (snd nh)"
    by (simp add: Let_def nh_def cq_def queues1_def split: prod.splits)
  have len_cq: "length (q_nodes cq) = EM_ASYNC_QUEUE_SIZE" if "j < length queues"
    using that Cons.prems by (simp add: cq_def nh_def clear_nodes_length)
  have inv_cq: "queue_inv cq \<and> q_count cq = 0" if "j < length queues"
    using that Cons.prems queue_inv_cleared [where nodes = "q_nodes (queues ! j)" and q = "queues ! j" and heap = heap]
    by (simp add: cq_def nh_def)
  have pre1: "\<forall>q \<in> set queues1. length (q_nodes q) = EM_ASYNC_QUEUE_SIZE"
  proof
    fix q assume "q \<in> set queues1"
    then have "q = cq \<and> j < length queues \<or> q \<in> set queues"
      unfolding queues1_def
      by (metis in_set_conv_nth length_list_update nth_list_update_eq nth_list_update_neq)
    then show "length (q_nodes q) = EM_ASYNC_QUEUE_SIZE"
      using len_cq Cons.prems by auto
  qed
  note IH = Cons.IH [OF pre1, of "snd nh"]
  show ?case
    unfolding step
  proof (intro conjI allI impI)
    show "length (fst (clear_queues rest queues1 (snd nh))) = length queues"
      using IH by (simp add: queues1_def)
  next
    fix i assume i: "i < length queues"
    then have i1: "i < length queues1" by (simp add: queues1_def)
    show "if i \<in> set (j # rest)
          then queue_inv (fst (clear_queues rest queues1 (snd nh)) ! i) \<and>
               q_count (fst (clear_queues rest queues1 (snd nh)) ! i) = 0
          else fst (clear_queues rest queues1 (snd nh)) ! i = queues ! i"
    proof (cases "i \<in> set rest")
      case True
      then show ?thesis using IH i1 by auto
    next
      case False
      then have eq: "fst (clear_queues rest queues1 (snd nh)) ! i = queues1 ! i"
        using IH i1 by auto
      show ?thesis
      proof (cases "i = j")
        case True
        then show ?thesis using eq i inv_cq by (simp add: queues1_def)
      next
        case False
        then show ?thesis using eq \<open>i \<notin> set rest\<close> by (simp add: queues1_def)
      qed
    qed
  qed
qed

lemma em_clear_queue_inv:
  assumes "queue_stats_inv m"
  shows "\<exists>m'. fst (snd (em_clear_queue (Some m) heap)) = Some m' \<and>
           queue_stats_inv m' \<and>
           async_queue_current (stats m') \<le> async_queue_max (stats m')"
proof -
  define qs where "qs = fst (clear_queues [0..<EM_PRIORITY_COUNT] (async_queues m) heap)"
  define m' where "m' = m\<lparr>async_queues := qs, stats := (stats m)\<lparr>async_queue_current := 0\<rparr>\<rparr>"
  have res: "fst (snd (em_clear_queue (Some m) heap)) = Some m'"
    by (simp add: em_clear_queue_def m'_def qs_def split: prod.splits)
  have len: "length (async_queues m) = EM_PRIORITY_COUNT"
    and nodes: "\<forall>q \<in> set (async_queues m). length (q_nodes q) = EM_ASYNC_QUEUE_SIZE"
    using assms by (simp_all add: queue_stats_inv_def queues_inv_def queue_inv_def)
  note cq = clear_queues_result [OF nodes, of "[0..<EM_PRIORITY_COUNT]" heap, folded qs_def]
  have all: "\<And>i. i < EM_PRIORITY_COUNT \<Longrightarrow> queue_inv (qs ! i) \<and> q_count (qs ! i) = 0"
    using cq len by simp
  have "queues_inv m'"
    using cq len all by (auto simp: queues_inv_def m'_def in_set_conv_nth)
  moreover have "queue_total m' = 0"
    using all [of 0] all [of 1] all [of 2]
    by (simp add: queue_total_eq queue_size_sum m'_def EM_PRIORITY_COUNT_def)
  ultimately show ?thesis
    using res by (simp add: queue_stats_inv_def) (simp add: m'_def)
qed

lemma em_reset_stats_inv:
  assumes "queue_stats_inv m"
  shows "\<exists>m'. snd (em_reset_stats (Some m)) = Some m' \<and> queue_stats_inv m'"
  using assms
  by (simp add: em_reset_stats_def queue_stats_inv_def queues_inv_stats queue_total_stats)

subsection \<open>Asynchronous publish\<close>


lemma em_publish_async_invalid:
  "EM_MAX_EVENT_TYPES \<le> unat e \<or> EM_PRIORITY_COUNT \<le> p \<Longrightarrow>
   em_publish_async (Some m) heap mr e d sz p = (EM_ERR_INVALID_PARAM, Some m, heap)"
  by (auto simp: em_publish_async_def)

lemma em_publish_async_oom:
  "unat e < EM_MAX_EVENT_TYPES \<Longrightarrow> p < EM_PRIORITY_COUNT \<Longrightarrow>
   d \<noteq> NULL \<and> 0 < sz \<and> mr = NULL \<Longrightarrow>
   em_publish_async (Some m) heap mr e d sz p = (EM_ERR_OUT_OF_MEMORY, Some m, heap)"
  by (simp add: em_publish_async_def)

lemma em_publish_async_enqueue:
  assumes "unat e < EM_MAX_EVENT_TYPES" "p < EM_PRIORITY_COUNT"
    and "\<not> (d \<noteq> NULL \<and> 0 < sz \<and> mr = NULL)"
    and "dc = (if d \<noteq> NULL \<and> 0 < sz then mr else NULL)"
    and "ev = \<lparr>ev_id = e, ev_data = (if dc \<noteq> NULL then dc else d), ev_data_size = sz,
                ev_priority = p, ev_mode = EM_MODE_ASYNC\<rparr>"
  shows "em_publish_async (Some m) heap mr e d sz p =
         (case enqueue_event (async_queues m ! p) ev dc of
            Inl r \<Rightarrow> (r, Some m, (if dc \<noteq> NULL then insert dc heap - {dc} else heap))
          | Inr q' \<Rightarrow>
              (EM_OK,
               Some (m\<lparr>async_queues := (async_queues m)[p := q'],
                       stats := (stats m)
                         \<lparr>events_published := events_published (stats m) + 1,
                          async_queue_current :=
                            queue_total (m\<lparr>async_queues := (async_queues m)[p := q']\<rparr>),
                          async_queue_max :=
                            (if async_queue_max (stats m)
                                < queue_total (m\<lparr>async_queues := (async_queues m)[p := q']\<rparr>)
                             then queue_total (m\<lparr>async_queues := (async_queues m)[p := q']\<rparr>)
                             else async_queue_max (stats m))\<rparr>\<rparr>),
               (if dc \<noteq> NULL then insert dc heap else heap)))"
proof (cases "d \<noteq> NULL \<and> 0 < sz")
  case True
  then have "mr \<noteq> NULL" "dc = mr" using assms(3,4) by auto
  then show ?thesis
    unfolding em_publish_async_def Let_def
    using assms(1,2) True
    by (simp add: assms(5) queue_total_stats split: sum.splits)
next
  case False
  then have "dc = NULL" using assms(4) by auto
  then show ?thesis
    unfolding em_publish_async_def Let_def
    using assms(1,2) False
    by (auto simp: assms(5) queue_total_stats split: sum.splits)
qed

lemma em_publish_async_inv:
  assumes "queue_stats_inv m"
  shows "\<exists>m'. fst (snd (em_publish_async (Some m) heap mr e d sz p)) = Some m' \<and>
           queue_stats_inv m' \<and>
           (async_queue_current (stats m) \<le> async_queue_max (stats m) \<longrightarrow>
            async_queue_current (stats m') \<le> async_queue_max (stats m'))"
proof -
  consider (invalid) "EM_MAX_EVENT_TYPES \<le> unat e \<or> EM_PRIORITY_COUNT \<le> p"
    | (oom) "unat e < EM_MAX_EVENT_TYPES" "p < EM_PRIORITY_COUNT" "d \<noteq> NULL \<and> 0 < sz \<and> mr = NULL"
    | (enq) "unat e < EM_MAX_EVENT_TYPES" "p < EM_PRIORITY_COUNT" "\<not> (d \<noteq> NULL \<and> 0 < sz \<and> mr = NULL)"
    by linarith
  then show ?thesis
  proof cases
    case invalid
    then show ?thesis using assms by (simp add: em_publish_async_invalid)
  next
    case oom
    then show ?thesis using assms by (simp add: em_publish_async_oom)
  next
    case enq
    define dc where "dc = (if d \<noteq> NULL \<and> 0 < sz then mr else NULL)"
    define ev where "ev = \<lparr>ev_id = e, ev_data = (if dc \<noteq> NULL then dc else d), ev_data_size = sz,
                            ev_priority = p, ev_mode = EM_MODE_ASYNC\<rparr>"
    note res = em_publish_async_enqueue [OF enq dc_def ev_def]
    show ?thesis
    proof (cases "enqueue_event (async_queues m ! p) ev dc")
      case (Inl r)
      then show ?thesis using assms by (simp add: res)
    next
      case (Inr q')
      have qs: "queues_inv m" using assms by (simp add: queue_stats_inv_def)
      have "queues_inv (m\<lparr>async_queues := (async_queues m)[p := q']\<rparr>)"
        using qs enq(2) Inr by (rule queues_inv_enq)
      then show ?thesis
        by (simp add: res Inr queue_stats_inv_def queues_inv_stats queue_total_stats not_less)
    qed
  qed
qed


lemma em_publish_inv:
  assumes "queue_stats_inv m"
  shows "\<exists>m'. fst (snd (em_publish (Some m) heap mr event)) = Some m' \<and>
           queue_stats_inv m' \<and>
           (async_queue_current (stats m) \<le> async_queue_max (stats m) \<longrightarrow>
            async_queue_current (stats m') \<le> async_queue_max (stats m'))"
proof (cases event)
  case None
  then show ?thesis using assms by (simp add: em_publish_def)
next
  case (Some ev)
  show ?thesis
  proof (cases "ev_mode ev = EM_MODE_SYNC")
    case True
    obtain m' where "fst (snd (em_publish_sync (Some m) (ev_id ev) (ev_data ev))) = Some m'"
      "queue_frame m m'"
      using em_publish_sync_frame by blast
    then show ?thesis
      using assms True Some queue_stats_inv_frame [of m m']
      by (auto simp: em_publish_def queue_frame_def split: prod.splits)
  next
    case False
    then show ?thesis
      using Some em_publish_async_inv [OF assms, of heap mr "ev_id ev" "ev_data ev"
          "ev_data_size ev" "ev_priority ev"]
      by (auto simp: em_publish_def split: prod.splits)
  qed
qed

lemma q_count_init: "q_count init_queue = 0"
  by (simp add: init_queue_def)

lemma queue_stats_inv_create:
  "\<exists>m. em_create True = Some m \<and> queue_stats_inv m \<and>
       async_queue_current (stats m) \<le> async_queue_max (stats m)"
  by (simp add: em_create_def queue_stats_inv_def queues_inv_def queue_inv_init
        queue_total_eq queue_size_sum zero_stats_def EM_PRIORITY_COUNT_def q_count_init
        numeral_3_eq_3)


subsection \<open>Processing all events ends\<close>

lemma process_scan_size:
  assumes "queues_inv m" "set js \<subseteq> {0..<EM_PRIORITY_COUNT}" "r \<noteq> EM_OK"
  shows "fst (process_scan js m r) = EM_OK \<longrightarrow>
         snd (snd (process_scan js m r)) \<noteq> None \<and>
         em_get_queue_size (Some (fst (snd (process_scan js m r))))
           = em_get_queue_size (Some m) - 1"
  using assms
proof (induction js arbitrary: r)
  case Nil
  then show ?case by simp
next
  case (Cons i rest)
  have i: "i < EM_PRIORITY_COUNT" using Cons.prems by simp
  have rest: "set rest \<subseteq> {0..<EM_PRIORITY_COUNT}" using Cons.prems by simp
  show ?case
  proof (cases "0 < q_count (async_queues m ! i)")
    case False
    show ?thesis
      unfolding process_scan_skip [OF False]
      by (rule Cons.IH [OF Cons.prems(1) rest Cons.prems(3)])
  next
    case True
    show ?thesis
    proof (cases "dequeue_event (async_queues m ! i)")
      case (Inl err)
      have "err \<noteq> EM_OK" using dequeue_event_Inl [OF Inl] by simp
      then show ?thesis
        unfolding process_scan_error [OF True Inl]
        by (rule Cons.IH [OF Cons.prems(1) rest])
    next
      case (Inr x)
      obtain q' ev dc where x: "x = (q', ev, dc)" by (cases x) auto
      note deq = Inr [unfolded x]
      have "q_count q' = q_count (async_queues m ! i) - 1"
        using dequeue_event_Inr(2) [OF deq] by simp
      then have "em_get_queue_size (Some (m\<lparr>async_queues := (async_queues m)[i := q']\<rparr>))
                 = em_get_queue_size (Some m) - 1"
        using Cons.prems(1) i by (simp add: queue_size_update queues_inv_def)
      then show ?thesis
        unfolding process_scan_dequeue [OF True deq]
        by (simp add: em_get_queue_size_def)
    qed
  qed
qed

lemma em_process_one_size:
  assumes "queues_inv m"
    and "em_process_one (Some m) heap = (EM_OK, Some m', heap', calls)"
  shows "em_get_queue_size (Some m') = em_get_queue_size (Some m) - 1"
proof -
  obtain r m1 x where scan: "process_scan [0..<EM_PRIORITY_COUNT] m EM_ERR_QUEUE_EMPTY = (r, m1, x)"
    by (cases "process_scan [0..<EM_PRIORITY_COUNT] m EM_ERR_QUEUE_EMPTY") auto
  have size1: "r = EM_OK \<longrightarrow>
               x \<noteq> None \<and> em_get_queue_size (Some m1) = em_get_queue_size (Some m) - 1"
    using process_scan_size [OF assms(1), of "[0..<EM_PRIORITY_COUNT]" EM_ERR_QUEUE_EMPTY]
    by (simp add: scan)
  show ?thesis
  proof (cases "\<exists>ev dc. r = EM_OK \<and> x = Some (ev, dc)")
    case True
    then obtain ev dc where okx: "r = EM_OK" "x = Some (ev, dc)" by auto
    have "Some m' = Some (fst (dispatch_event m1 (ev_id ev) (ev_data ev)))"
      using assms(2) by (simp add: em_process_one_def scan okx split: prod.splits)
    then have "async_queues m' = async_queues m1"
      using dispatch_event_frame [of m1 "ev_id ev" "ev_data ev"] by (simp add: queue_frame_def)
    then have "em_get_queue_size (Some m') = em_get_queue_size (Some m1)"
      by (simp add: em_get_queue_size_def)
    then show ?thesis using size1 okx by simp
  next
    case False
    then have "r \<noteq> EM_OK" using size1 by auto
    then have "fst (em_process_one (Some m) heap) \<noteq> EM_OK"
      by (auto simp: em_process_one_def scan split: em_error_t.splits option.splits)
    then show ?thesis using assms(2) by simp
  qed
qed

lemma process_all_loop_returns:
  assumes "queue_stats_inv m"
  shows "\<exists>n m' heap' calls'.
           process_all_loop (Some m) heap count calls = Some (n, Some m', heap', calls') \<and>
           queue_stats_inv m' \<and>
           (async_queue_current (stats m) \<le> async_queue_max (stats m) \<longrightarrow>
            async_queue_current (stats m') \<le> async_queue_max (stats m'))"
  using assms
proof (induction "nat (em_get_queue_size (Some m))" arbitrary: m heap count calls
       rule: less_induct)
  case less
  obtain r h1 heap1 calls1 where one: "em_process_one (Some m) heap = (r, h1, heap1, calls1)"
    by (cases "em_process_one (Some m) heap") auto
  obtain m1 where m1: "h1 = Some m1" "queue_stats_inv m1"
    "async_queue_current (stats m) \<le> async_queue_max (stats m) \<longrightarrow>
     async_queue_current (stats m1) \<le> async_queue_max (stats m1)"
    using em_process_one_inv [OF less.prems, of heap] by (auto simp: one)
  show ?case
  proof (cases "r = EM_OK")
    case False
    then have "process_all_loop (Some m) heap count calls = Some (count, Some m1, heap1, calls @ calls1)"
      by (subst process_all_loop.simps) (simp add: one m1(1))
    then show ?thesis using m1 by simp
  next
    case True
    have qs: "queues_inv m" "queues_inv m1"
      using less.prems m1(2) by (simp_all add: queue_stats_inv_def)
    have "em_get_queue_size (Some m1) = em_get_queue_size (Some m) - 1"
      using em_process_one_size [OF qs(1)] one True m1(1) by simp
    moreover have "0 \<le> em_get_queue_size (Some m1)"
      using qs(2) by (rule queue_size_bounds(1))
    ultimately have "nat (em_get_queue_size (Some m1)) < nat (em_get_queue_size (Some m))"
      by simp
    from less.hyps [OF this m1(2), of heap1 "count + 1" "calls @ calls1"]
    obtain n m' heap' calls' where
      r: "process_all_loop (Some m1) heap1 (count + 1) (calls @ calls1) = Some (n, Some m', heap', calls')"
      "queue_stats_inv m'"
      "async_queue_current (stats m1) \<le> async_queue_max (stats m1) \<longrightarrow>
       async_queue_current (stats m') \<le> async_queue_max (stats m')"
      by blast
    have "process_all_loop (Some m) heap count calls = Some (n, Some m', heap', calls')"
      by (subst process_all_loop.simps) (simp add: one m1(1) True r(1))
    then show ?thesis using r(2,3) m1(3) by auto
  qed
qed

lemma em_process_all_returns:
  assumes "queue_stats_inv m"
  shows "\<exists>n m' heap' calls'.
           em_process_all (Some m) heap = Some (n, Some m', heap', calls') \<and>
           queue_stats_inv m' \<and>
           (async_queue_current (stats m) \<le> async_queue_max (stats m) \<longrightarrow>
            async_queue_current (stats m') \<le> async_queue_max (stats m'))"
  using process_all_loop_returns [OF assms, of heap 0 "[]"]
  by (simp add: em_process_all_def)

subsection \<open>Every reachable state\<close>

lemma step_inv:
  assumes "queue_stats_inv m"
  shows "\<exists>m'. fst (step op (Some m, heap)) = Some m' \<and> queue_stats_inv m' \<and>
           (op \<noteq> ResetStats \<longrightarrow>
            async_queue_current (stats m) \<le> async_queue_max (stats m) \<longrightarrow>
            async_queue_current (stats m') \<le> async_queue_max (stats m'))"
proof (cases op)
  case (Subscribe e c u p)
  obtain m' where "snd (em_subscribe (Some m) e c u p) = Some m'" "queue_frame m m'"
    using em_subscribe_frame by blast
  then show ?thesis
    using Subscribe assms queue_stats_inv_frame [of m m'] by (simp add: queue_frame_def)
next
  case (Unsubscribe e c)
  obtain m' where "snd (em_unsubscribe (Some m) e c) = Some m'" "queue_frame m m'"
    using em_unsubscribe_frame by blast
  then show ?thesis
    using Unsubscribe assms queue_stats_inv_frame [of m m'] by (simp add: queue_frame_def)
next
  case (UnsubscribeAll e)
  obtain m' where "snd (em_unsubscribe_all (Some m) e) = Some m'" "queue_frame m m'"
    using em_unsubscribe_all_frame by blast
  then show ?thesis
    using UnsubscribeAll assms queue_stats_inv_frame [of m m'] by (simp add: queue_frame_def)
next
  case (PublishSync e d)
  obtain m' where "fst (snd (em_publish_sync (Some m) e d)) = Some m'" "queue_frame m m'"
    using em_publish_sync_frame by blast
  then show ?thesis
    using PublishSync assms queue_stats_inv_frame [of m m'] by (simp add: queue_frame_def)
next
  case (PublishAsync mr e d sz p)
  then show ?thesis
    using em_publish_async_inv [OF assms, of heap mr e d sz p] by simp
next
  case (Publish mr event)
  then show ?thesis
    using em_publish_inv [OF assms, of heap mr event] by (auto split: prod.splits)
next
  case ProcessOne
  then show ?thesis
    using em_process_one_inv [OF assms, of heap] by (auto split: prod.splits)
next
  case ProcessAll
  then show ?thesis
    using em_process_all_returns [OF assms, of heap] by auto
next
  case StopLoop
  obtain m' where "snd (em_stop_loop (Some m)) = Some m'" "queue_frame m m'"
    using em_stop_loop_frame by blast
  then show ?thesis
    using StopLoop assms queue_stats_inv_frame [of m m'] by (simp add: queue_frame_def)
next
  case ResetStats
  then show ?thesis
    using em_reset_stats_inv [OF assms] by simp
next
  case ClearQueue
  then show ?thesis
    using em_clear_queue_inv [OF assms, of heap] by auto
qed

lemma run_snoc: "run (ops @ [op]) = step op (run ops)"
  by (simp add: run_def)

lemma run_inv:
  "\<exists>m. fst (run ops) = Some m \<and> queue_stats_inv m \<and>
       (ResetStats \<notin> set ops \<longrightarrow> async_queue_current (stats m) \<le> async_queue_max (stats m))"
proof (induction ops rule: rev_induct)
  case Nil
  then show ?case using queue_stats_inv_create by (simp add: run_def)
next
  case (snoc op ops)
  then obtain m where m: "fst (run ops) = Some m" "queue_stats_inv m"
    "ResetStats \<notin> set ops \<longrightarrow> async_queue_current (stats m) \<le> async_queue_max (stats m)"
    by blast
  obtain heap where w: "run ops = (Some m, heap)"
    using m(1) by (cases "run ops") simp
  show ?case
    using step_inv [OF m(2), of op heap] m(3) by (auto simp: run_snoc w)
qed

subsection \<open>The high-water mark along a sequence of calls\<close>

lemma queue_size_frame:
  "async_queues m' = async_queues m \<Longrightarrow> em_get_queue_size (Some m') = em_get_queue_size (Some m)"
  by (simp add: em_get_queue_size_def)

lemma current_zero:
  assumes "queue_stats_inv m" "\<not> 0 < em_get_queue_size (Some m)"
  shows "async_queue_current (stats m) = 0"
proof -
  have qs: "queues_inv m" using assms(1) by (simp add: queue_stats_inv_def)
  have "em_get_queue_size (Some m) = 0"
    using queue_size_bounds(1) [OF qs] assms(2) by simp
  then have "uint (async_queue_current (stats m)) = 0"
    using assms(1) uint_queue_total [OF qs] by (simp add: queue_stats_inv_def)
  then show ?thesis by (simp add: uint_0_iff)
qed

lemma current_positive:
  assumes "queue_stats_inv m" "0 < em_get_queue_size (Some m)"
  shows "async_queue_current (stats m) \<noteq> 0"
proof -
  have qs: "queues_inv m" using assms(1) by (simp add: queue_stats_inv_def)
  have "uint (async_queue_current (stats m)) = em_get_queue_size (Some m)"
    using assms(1) uint_queue_total [OF qs] by (simp add: queue_stats_inv_def)
  then show ?thesis using assms(2) by auto
qed

lemma mark_inv_frame:
  assumes "queue_frame m m'" "mark_inv m stale"
  shows "mark_inv m' stale"
proof -
  have "async_queues m' = async_queues m"
    using assms(1) by (simp add: queue_frame_def)
  then have "em_get_queue_size (Some m') = em_get_queue_size (Some m)"
    by (rule queue_size_frame)
  then show ?thesis
    using assms by (simp add: mark_inv_def queue_frame_def)
qed

lemma mark_inv_bound:
  assumes "queue_stats_inv m" "mark_inv m stale"
  shows "async_queue_current (stats m) \<le> async_queue_max (stats m) \<longleftrightarrow> \<not> stale"
proof (cases stale)
  case False
  then show ?thesis using assms(2) by (simp add: mark_inv_def)
next
  case True
  then have "async_queue_max (stats m) = 0" "0 < em_get_queue_size (Some m)"
    using assms(2) by (simp_all add: mark_inv_def)
  then show ?thesis
    using True current_positive [OF assms(1)] by (simp add: word_le_0_iff)
qed

lemma process_scan_max:
  "async_queue_max (stats (fst (snd (process_scan js m r)))) = async_queue_max (stats m)"
proof (induction js arbitrary: r)
  case Nil
  then show ?case by simp
next
  case (Cons i rest)
  show ?case
  proof (cases "0 < q_count (async_queues m ! i)")
    case False
    show ?thesis unfolding process_scan_skip [OF False] by (rule Cons.IH)
  next
    case True
    show ?thesis
    proof (cases "dequeue_event (async_queues m ! i)")
      case (Inl err)
      show ?thesis unfolding process_scan_error [OF True Inl] by (rule Cons.IH)
    next
      case (Inr x)
      obtain q' ev dc where x: "x = (q', ev, dc)" by (cases x) auto
      show ?thesis
        unfolding process_scan_dequeue [OF True Inr [unfolded x]] by simp
    qed
  qed
qed

lemma em_process_one_max:
  assumes "fst (snd (em_process_one (Some m) heap)) = Some m'"
  shows "async_queue_max (stats m') = async_queue_max (stats m)"
proof -
  obtain r m1 x where scan: "process_scan [0..<EM_PRIORITY_COUNT] m EM_ERR_QUEUE_EMPTY = (r, m1, x)"
    by (cases "process_scan [0..<EM_PRIORITY_COUNT] m EM_ERR_QUEUE_EMPTY") auto
  have max1: "async_queue_max (stats m1) = async_queue_max (stats m)"
    using process_scan_max [of "[0..<EM_PRIORITY_COUNT]" m EM_ERR_QUEUE_EMPTY] by (simp add: scan)
  show ?thesis
  proof (cases "\<exists>ev dc. r = EM_OK \<and> x = Some (ev, dc)")
    case True
    then obtain ev dc where okx: "r = EM_OK" "x = Some (ev, dc)" by auto
    have "Some m' = Some (fst (dispatch_event m1 (ev_id ev) (ev_data ev)))"
      using assms by (simp add: em_process_one_def scan okx split: prod.splits)
    then show ?thesis
      using dispatch_event_frame [of m1 "ev_id ev" "ev_data ev"] max1
      by (simp add: queue_frame_def)
  next
    case False
    then have "fst (snd (em_process_one (Some m) heap)) = Some m1"
      by (auto simp: em_process_one_def scan split: em_error_t.splits option.splits)
    then show ?thesis using assms max1 by simp
  qed
qed

lemma process_all_loop_max:
  assumes "queue_stats_inv m"
    and "process_all_loop (Some m) heap count calls = Some (n, Some m', heap', calls')"
  shows "async_queue_max (stats m') = async_queue_max (stats m)"
  using assms
proof (induction "nat (em_get_queue_size (Some m))" arbitrary: m heap count calls
       rule: less_induct)
  case less
  obtain r h1 heap1 calls1 where one: "em_process_one (Some m) heap = (r, h1, heap1, calls1)"
    by (cases "em_process_one (Some m) heap") auto
  obtain m1 where m1: "h1 = Some m1" "queue_stats_inv m1"
    using em_process_one_inv [OF less.prems(1), of heap] by (auto simp: one)
  have max1: "async_queue_max (stats m1) = async_queue_max (stats m)"
    using em_process_one_max [of m heap m1] by (simp add: one m1(1))
  show ?case
  proof (cases "r = EM_OK")
    case False
    then have "process_all_loop (Some m) heap count calls = Some (count, Some m1, heap1, calls @ calls1)"
      by (subst process_all_loop.simps) (simp add: one m1(1))
    then show ?thesis using less.prems(2) max1 by simp
  next
    case True
    have qs: "queues_inv m" "queues_inv m1"
      using less.prems(1) m1(2) by (simp_all add: queue_stats_inv_def)
    have "em_get_queue_size (Some m1) = em_get_queue_size (Some m) - 1"
      using em_process_one_size [OF qs(1)] one True m1(1) by simp
    moreover have "0 \<le> em_get_queue_size (Some m1)"
      using qs(2) by (rule queue_size_bounds(1))
    ultimately have less': "nat (em_get_queue_size (Some m1)) < nat (em_get_queue_size (Some m))"
      by simp
    have "process_all_loop (Some m) heap count calls
          = process_all_loop (Some m1) heap1 (count + 1) (calls @ calls1)"
      by (subst process_all_loop.simps) (simp add: one m1(1) True)
    then have "process_all_loop (Some m1) heap1 (count + 1) (calls @ calls1)
               = Some (n, Some m', heap', calls')"
      using less.prems(2) by simp
    from less.hyps [OF less' m1(2) this] show ?thesis using max1 by simp
  qed
qed

lemma em_publish_async_result:
  assumes "queue_stats_inv m"
  shows "\<exists>r m' heap'.
           em_publish_async (Some m) heap mr e d sz p = (r, Some m', heap') \<and>
           queue_stats_inv m' \<and>
           (r = EM_OK \<longrightarrow> async_queue_current (stats m') \<le> async_queue_max (stats m')) \<and>
           (r \<noteq> EM_OK \<longrightarrow> m' = m)"
proof -
  consider (invalid) "EM_MAX_EVENT_TYPES \<le> unat e \<or> EM_PRIORITY_COUNT \<le> p"
    | (oom) "unat e < EM_MAX_EVENT_TYPES" "p < EM_PRIORITY_COUNT" "d \<noteq> NULL \<and> 0 < sz \<and> mr = NULL"
    | (enq) "unat e < EM_MAX_EVENT_TYPES" "p < EM_PRIORITY_COUNT" "\<not> (d \<noteq> NULL \<and> 0 < sz \<and> mr = NULL)"
    by linarith
  then show ?thesis
  proof cases
    case invalid
    then show ?thesis using assms by (simp add: em_publish_async_invalid)
  next
    case oom
    then show ?thesis using assms by (simp add: em_publish_async_oom)
  next
    case enq
    define dc where "dc = (if d \<noteq> NULL \<and> 0 < sz then mr else NULL)"
    define ev where "ev = \<lparr>ev_id = e, ev_data = (if dc \<noteq> NULL then dc else d), ev_data_size = sz,
                            ev_priority = p, ev_mode = EM_MODE_ASYNC\<rparr>"
    note res = em_publish_async_enqueue [OF enq dc_def ev_def]
    show ?thesis
    proof (cases "enqueue_event (async_queues m ! p) ev dc")
      case (Inl r)
      have "r \<noteq> EM_OK" using enqueue_event_Inl [OF Inl] by simp
      then show ?thesis using assms by (simp add: res Inl)
    next
      case (Inr q')
      have qs: "queues_inv m" using assms by (simp add: queue_stats_inv_def)
      have "queues_inv (m\<lparr>async_queues := (async_queues m)[p := q']\<rparr>)"
        using qs enq(2) Inr by (rule queues_inv_enq)
      then show ?thesis
        by (simp add: res Inr queue_stats_inv_def queues_inv_stats queue_total_stats not_less)
    qed
  qed
qed

lemma step_mark_inv:
  assumes "queue_stats_inv m" "mark_inv m stale"
  shows "\<exists>m'. fst (step op (Some m, heap)) = Some m' \<and> queue_stats_inv m' \<and>
              mark_inv m' (step_stale op (Some m, heap) stale)"
proof (cases op)
  case (Subscribe e c u p)
  obtain m' where "snd (em_subscribe (Some m) e c u p) = Some m'" "queue_frame m m'"
    using em_subscribe_frame by blast
  then show ?thesis
    using Subscribe assms queue_stats_inv_frame [of m m'] mark_inv_frame [of m m' stale] by simp
next
  case (Unsubscribe e c)
  obtain m' where "snd (em_unsubscribe (Some m) e c) = Some m'" "queue_frame m m'"
    using em_unsubscribe_frame by blast
  then show ?thesis
    using Unsubscribe assms queue_stats_inv_frame [of m m'] mark_inv_frame [of m m' stale] by simp
next
  case (UnsubscribeAll e)
  obtain m' where "snd (em_unsubscribe_all (Some m) e) = Some m'" "queue_frame m m'"
    using em_unsubscribe_all_frame by blast
  then show ?thesis
    using UnsubscribeAll assms queue_stats_inv_frame [of m m'] mark_inv_frame [of m m' stale] by simp
next
  case (PublishSync e d)
  obtain m' where "fst (snd (em_publish_sync (Some m) e d)) = Some m'" "queue_frame m m'"
    using em_publish_sync_frame by blast
  then show ?thesis
    using PublishSync assms queue_stats_inv_frame [of m m'] mark_inv_frame [of m m' stale] by simp
next
  case (PublishAsync mr e d sz p)
  obtain r m' heap' where r: "em_publish_async (Some m) heap mr e d sz p = (r, Some m', heap')"
    "queue_stats_inv m'"
    "r = EM_OK \<longrightarrow> async_queue_current (stats m') \<le> async_queue_max (stats m')"
    "r \<noteq> EM_OK \<longrightarrow> m' = m"
    using em_publish_async_result [OF assms(1), of heap mr e d sz p] by blast
  show ?thesis
  proof (cases "r = EM_OK")
    case True
    then show ?thesis using PublishAsync r by (simp add: mark_inv_def)
  next
    case False
    then show ?thesis using PublishAsync r assms by simp
  qed
next
  case (Publish mr event)
  show ?thesis
  proof (cases event)
    case None
    then show ?thesis using Publish assms by (simp add: em_publish_def)
  next
    case (Some ev)
    show ?thesis
    proof (cases "ev_mode ev = EM_MODE_SYNC")
      case True
      obtain m' where "fst (snd (em_publish_sync (Some m) (ev_id ev) (ev_data ev))) = Some m'"
        "queue_frame m m'"
        using em_publish_sync_frame by blast
      then show ?thesis
        using Publish Some True assms queue_stats_inv_frame [of m m'] mark_inv_frame [of m m' stale]
        by (auto simp: em_publish_def split: prod.splits)
    next
      case False
      then have async: "ev_mode ev = EM_MODE_ASYNC" by (cases "ev_mode ev") simp_all
      obtain r m' heap' where r:
        "em_publish_async (Some m) heap mr (ev_id ev) (ev_data ev) (ev_data_size ev) (ev_priority ev)
           = (r, Some m', heap')"
        "queue_stats_inv m'"
        "r = EM_OK \<longrightarrow> async_queue_current (stats m') \<le> async_queue_max (stats m')"
        "r \<noteq> EM_OK \<longrightarrow> m' = m"
        using em_publish_async_result [OF assms(1), of heap mr "ev_id ev" "ev_data ev"
            "ev_data_size ev" "ev_priority ev"] by blast
      have pub: "em_publish (Some m) heap mr event = (r, Some m', heap', [])"
        using Some False r(1) by (simp add: em_publish_def)
      show ?thesis
      proof (cases "r = EM_OK")
        case True
        then show ?thesis using Publish Some async pub r by (simp add: mark_inv_def)
      next
        case False
        then show ?thesis using Publish Some async pub r assms by simp
      qed
    qed
  qed
next
  case ProcessOne
  obtain m' where m': "fst (snd (em_process_one (Some m) heap)) = Some m'" "queue_stats_inv m'"
    "async_queue_current (stats m) \<le> async_queue_max (stats m) \<longrightarrow>
     async_queue_current (stats m') \<le> async_queue_max (stats m')"
    using em_process_one_inv [OF assms(1), of heap] by blast
  have max: "async_queue_max (stats m') = async_queue_max (stats m)"
    using m'(1) by (rule em_process_one_max)
  have st: "fst (step ProcessOne (Some m, heap)) = Some m'"
    using m'(1) by (auto split: prod.splits)
  have "mark_inv m' (stale \<and> 0 < em_get_queue_size (Some m'))"
    using assms(2) m'(3) max current_zero [OF m'(2)]
    by (auto simp: mark_inv_def)
  then show ?thesis
    using ProcessOne st m'(2) by (simp del: step.simps add: step_stale.simps)
next
  case ProcessAll
  obtain n m' heap' calls' where m': "em_process_all (Some m) heap = Some (n, Some m', heap', calls')"
    "queue_stats_inv m'"
    "async_queue_current (stats m) \<le> async_queue_max (stats m) \<longrightarrow>
     async_queue_current (stats m') \<le> async_queue_max (stats m')"
    using em_process_all_returns [OF assms(1), of heap] by blast
  have max: "async_queue_max (stats m') = async_queue_max (stats m)"
    using process_all_loop_max [OF assms(1), of heap 0 "[]" n m' heap' calls'] m'(1)
    by (simp add: em_process_all_def)
  have st: "fst (step ProcessAll (Some m, heap)) = Some m'"
    using m'(1) by simp
  have "mark_inv m' (stale \<and> 0 < em_get_queue_size (Some m'))"
    using assms(2) m'(3) max current_zero [OF m'(2)]
    by (auto simp: mark_inv_def)
  then show ?thesis
    using ProcessAll st m'(2) by (simp del: step.simps add: step_stale.simps)
next
  case StopLoop
  obtain m' where "snd (em_stop_loop (Some m)) = Some m'" "queue_frame m m'"
    using em_stop_loop_frame by blast
  then show ?thesis
    using StopLoop assms queue_stats_inv_frame [of m m'] mark_inv_frame [of m m' stale] by simp
next
  case ResetStats
  obtain m' where m': "snd (em_reset_stats (Some m)) = Some m'" "queue_stats_inv m'"
    using em_reset_stats_inv [OF assms(1)] by blast
  have f: "async_queue_max (stats m') = 0" "async_queues m' = async_queues m"
    using m'(1) by (auto simp: em_reset_stats_def zero_stats_def)
  have sz: "em_get_queue_size (Some m') = em_get_queue_size (Some m)"
    using f(2) by (rule queue_size_frame)
  have "mark_inv m' (0 < em_get_queue_size (Some m))"
    using f(1) sz current_zero [OF m'(2)] by (auto simp: mark_inv_def)
  then show ?thesis
    using ResetStats m' by simp
next
  case ClearQueue
  then show ?thesis
    using em_clear_queue_inv [OF assms(1), of heap] by (auto simp: mark_inv_def)
qed

lemma run_stale_snoc:
  "run_stale (ops @ [op]) w stale = step_stale op (fold step ops w) (run_stale ops w stale)"
  by (induction ops arbitrary: w stale) simp_all

lemma max_stale_snoc: "max_stale (ops @ [op]) = step_stale op (run ops) (max_stale ops)"
  by (simp add: max_stale_def run_def run_stale_snoc)

lemma run_mark_inv:
  "\<exists>m. fst (run ops) = Some m \<and> queue_stats_inv m \<and> mark_inv m (max_stale ops)"
proof (induction ops rule: rev_induct)
  case Nil
  then show ?case
    using queue_stats_inv_create by (auto simp: run_def max_stale_def mark_inv_def)
next
  case (snoc op ops)
  then obtain m where m: "fst (run ops) = Some m" "queue_stats_inv m" "mark_inv m (max_stale ops)"
    by blast
  obtain heap where w: "run ops = (Some m, heap)"
    using m(1) by (cases "run ops") simp
  show ?case
    using step_mark_inv [OF m(2,3), of op heap] by (simp add: run_snoc max_stale_snoc w)
qed

text \<open>
  C1, as the code has it. In every reachable state the handle is valid and
  \<open>async_queue_current\<close> is the sum of the three queue counts; this holds after every
  operation, \<open>em_reset_stats\<close> included. \<open>async_queue_current\<close> does not exceed
  \<open>async_queue_max\<close>, except while the mark is stale: from an \<open>em_reset_stats\<close> made
  while events are queued, until the next successful asynchronous publish or
  \<open>em_clear_queue\<close>, or until processing has emptied the queues. In that window, and
  only there, it does exceed it.
\<close>

theorem queue_statistics_invariant:
  "\<exists>m. fst (run ops) = Some m \<and>
       uint (async_queue_current (stats m))
         = q_count (async_queues m ! EM_PRIORITY_HIGH) + q_count (async_queues m ! EM_PRIORITY_NORMAL)
           + q_count (async_queues m ! EM_PRIORITY_LOW) \<and>
       (async_queue_current (stats m) \<le> async_queue_max (stats m) \<longleftrightarrow> \<not> max_stale ops)"
proof -
  obtain m where m: "fst (run ops) = Some m" "queue_stats_inv m" "mark_inv m (max_stale ops)"
    using run_mark_inv by blast
  have "uint (async_queue_current (stats m)) = em_get_queue_size (Some m)"
    using m(2) by (simp add: queue_stats_inv_def uint_queue_total)
  then show ?thesis
    using m(1) mark_inv_bound [OF m(2,3)]
    by (simp add: queue_size_sum EM_PRIORITY_HIGH_def EM_PRIORITY_NORMAL_def EM_PRIORITY_LOW_def)
qed

lemma reset_then_publish_example:
  "max_stale [PublishAsync NULL 0 NULL 0 EM_PRIORITY_NORMAL, ResetStats,
              PublishAsync 7 1 5 4 EM_PRIORITY_LOW, ProcessOne] = False \<and>
   map_option (\<lambda>m. map q_count (async_queues m))
     (fst (run [PublishAsync NULL 0 NULL 0 EM_PRIORITY_NORMAL, ResetStats,
                PublishAsync 7 1 5 4 EM_PRIORITY_LOW, ProcessOne])) = Some [0, 0, 1]"
  by code_simp

theorem queue_statistics_invariant_witness:
  "\<not> max_stale [PublishAsync NULL 0 NULL 0 EM_PRIORITY_NORMAL, ResetStats,
                 PublishAsync 7 1 5 4 EM_PRIORITY_LOW, ProcessOne] \<and>
   (\<exists>m. fst (run [PublishAsync NULL 0 NULL 0 EM_PRIORITY_NORMAL, ResetStats,
                  PublishAsync 7 1 5 4 EM_PRIORITY_LOW, ProcessOne]) = Some m \<and>
        map q_count (async_queues m) = [0, 0, 1] \<and>
        uint (async_queue_current (stats m)) = 1 \<and>
        async_queue_current (stats m) \<le> async_queue_max (stats m))"
proof -
  let ?ops = "[PublishAsync NULL 0 NULL 0 EM_PRIORITY_NORMAL, ResetStats,
               PublishAsync 7 1 5 4 EM_PRIORITY_LOW, ProcessOne]"
  have fresh: "\<not> max_stale ?ops"
    using reset_then_publish_example by simp
  obtain m where m: "fst (run ?ops) = Some m"
    "uint (async_queue_current (stats m))
       = q_count (async_queues m ! EM_PRIORITY_HIGH) + q_count (async_queues m ! EM_PRIORITY_NORMAL)
         + q_count (async_queues m ! EM_PRIORITY_LOW)"
    "async_queue_current (stats m) \<le> async_queue_max (stats m) \<longleftrightarrow> \<not> max_stale ?ops"
    using queue_statistics_invariant [of ?ops] by blast
  have counts: "map q_count (async_queues m) = [0, 0, 1]"
    using reset_then_publish_example by (simp add: m(1))
  then have len: "length (async_queues m) = 3"
    by (metis length_map length_Cons list.size(3) numeral_3_eq_3)
  have "q_count (async_queues m ! 0) = map q_count (async_queues m) ! 0"
    "q_count (async_queues m ! 1) = map q_count (async_queues m) ! 1"
    "q_count (async_queues m ! 2) = map q_count (async_queues m) ! 2"
    using len by simp_all
  then have "uint (async_queue_current (stats m)) = 1"
    using m(2)
    by (simp add: counts EM_PRIORITY_HIGH_def EM_PRIORITY_NORMAL_def EM_PRIORITY_LOW_def)
  then show ?thesis
    using fresh m(1,3) counts by auto
qed

text \<open>
  C1 as stated fails: after one asynchronous publish and \<open>em_reset_stats\<close> the queue
  holds one event, so \<open>async_queue_current\<close> is 1, and \<open>async_queue_max\<close> is 0.
\<close>

theorem queue_max_after_reset_counterexample:
  "em_get_stats (fst (run [PublishAsync NULL 0 NULL 0 EM_PRIORITY_NORMAL, ResetStats])) True
     = (EM_OK, Some \<lparr>events_published = 0, events_processed = 0, async_queue_current = 1,
                     async_queue_max = 0, subscribers_total = 0\<rparr>)"
  by code_simp

section \<open>FIFO ring buffer\<close>

lemma enqueue_event_full_iff:
  assumes "queue_inv q"
  shows "enqueue_event q ev dc = Inl EM_ERR_QUEUE_FULL \<longleftrightarrow> q_count q = int EM_ASYNC_QUEUE_SIZE"
  using assms by (auto simp: enqueue_event_def Let_def queue_inv_def)

lemma dequeue_event_empty_iff:
  "dequeue_event q = Inl EM_ERR_QUEUE_EMPTY \<longleftrightarrow> q_count q = 0"
  by (simp add: dequeue_event_def Let_def)

lemma tail_slot_free:
  assumes "queue_inv q" "q_count q < int EM_ASYNC_QUEUE_SIZE"
  shows "\<not> n_used (q_nodes q ! nat (q_tail q))"
proof -
  have "nat (q_tail q) \<in> {0..<EM_ASYNC_QUEUE_SIZE}"
    using tail_slot_bound [OF assms(1)] by simp
  then have "n_used (q_nodes q ! nat (q_tail q)) \<longleftrightarrow> nat (q_tail q) \<in> set (queue_slots q)"
    using assms(1) unfolding queue_inv_def by blast
  then show ?thesis
    using tail_not_in_slots [OF assms] by simp
qed

text \<open>
  C6. For a ring buffer that satisfies its invariant: \<open>enqueue_event\<close> fails, with
  \<open>EM_ERR_QUEUE_FULL\<close>, exactly when \<open>count\<close> is the capacity; when it succeeds, the
  slot it writes was not in use, the invariant still holds, and the contents are the old
  contents followed by the new node. \<open>dequeue_event\<close> fails, with \<open>EM_ERR_QUEUE_EMPTY\<close>,
  exactly when \<open>count\<close> is 0; when it succeeds, it returns the event and the owned copy
  of the oldest node, and the contents are the old contents without that node. So the
  nodes leave a queue in the order in which they entered it.
\<close>

theorem ring_buffer_fifo:
  assumes "queue_inv queue"
  shows "(enqueue_event queue event data_copy = Inl EM_ERR_QUEUE_FULL
            \<longleftrightarrow> q_count queue = int EM_ASYNC_QUEUE_SIZE) \<and>
         (case enqueue_event queue event data_copy of
            Inl err \<Rightarrow> err = EM_ERR_QUEUE_FULL
          | Inr queue' \<Rightarrow>
              \<not> n_used (q_nodes queue ! nat (q_tail queue)) \<and>
              queue_inv queue' \<and>
              queue_contents queue' =
                queue_contents queue @
                  [\<lparr>n_event = event, n_data_copy = data_copy, n_used = True\<rparr>]) \<and>
         (dequeue_event queue = Inl EM_ERR_QUEUE_EMPTY \<longleftrightarrow> q_count queue = 0) \<and>
         (case dequeue_event queue of
            Inl err \<Rightarrow> err = EM_ERR_QUEUE_EMPTY
          | Inr (queue', event', data_copy') \<Rightarrow>
              queue_inv queue' \<and>
              queue_contents queue \<noteq> [] \<and>
              event' = n_event (hd (queue_contents queue)) \<and>
              data_copy' = n_data_copy (hd (queue_contents queue)) \<and>
              queue_contents queue' = tl (queue_contents queue))"
proof (intro conjI)
  show "enqueue_event queue event data_copy = Inl EM_ERR_QUEUE_FULL
          \<longleftrightarrow> q_count queue = int EM_ASYNC_QUEUE_SIZE"
    using assms by (rule enqueue_event_full_iff)
  show "dequeue_event queue = Inl EM_ERR_QUEUE_EMPTY \<longleftrightarrow> q_count queue = 0"
    by (rule dequeue_event_empty_iff)
  show "case enqueue_event queue event data_copy of
          Inl err \<Rightarrow> err = EM_ERR_QUEUE_FULL
        | Inr queue' \<Rightarrow>
            \<not> n_used (q_nodes queue ! nat (q_tail queue)) \<and>
            queue_inv queue' \<and>
            queue_contents queue' =
              queue_contents queue @
                [\<lparr>n_event = event, n_data_copy = data_copy, n_used = True\<rparr>]"
  proof (cases "enqueue_event queue event data_copy")
    case (Inl err)
    then show ?thesis by (simp add: enqueue_event_Inl)
  next
    case (Inr queue')
    then show ?thesis
      using tail_slot_free [OF assms enqueue_event_Inr(1) [OF Inr]]
            inv_enq [OF assms Inr] contents_enq [OF assms Inr]
      by simp
  qed
  show "case dequeue_event queue of
          Inl err \<Rightarrow> err = EM_ERR_QUEUE_EMPTY
        | Inr (queue', event', data_copy') \<Rightarrow>
            queue_inv queue' \<and>
            queue_contents queue \<noteq> [] \<and>
            event' = n_event (hd (queue_contents queue)) \<and>
            data_copy' = n_data_copy (hd (queue_contents queue)) \<and>
            queue_contents queue' = tl (queue_contents queue)"
  proof (cases "dequeue_event queue")
    case (Inl err)
    then show ?thesis by (simp add: dequeue_event_Inl)
  next
    case (Inr x)
    obtain queue' event' data_copy' where x: "x = (queue', event', data_copy')"
      by (cases x) auto
    note deq = Inr [unfolded x]
    show ?thesis
      using inv_deq [OF assms deq] contents_deq [OF assms deq] dequeue_event_Inr(3,4) [OF deq]
      by (simp add: Inr x)
  qed
qed

lemma queue_inv_example:
  "queue_inv \<lparr>q_nodes = (replicate 32 \<lparr>n_event = zero_event, n_data_copy = NULL, n_used = False\<rparr>)
                 [31 := \<lparr>n_event = zero_event\<lparr>ev_id := 7\<rparr>, n_data_copy = 100, n_used = True\<rparr>,
                  0 := \<lparr>n_event = zero_event\<lparr>ev_id := 8\<rparr>, n_data_copy = NULL, n_used = True\<rparr>],
               q_head = 31, q_tail = 1, q_count = 2\<rparr>"
  by code_simp

lemma queue_inv_full_example:
  "queue_inv \<lparr>q_nodes = replicate 32 \<lparr>n_event = zero_event, n_data_copy = NULL, n_used = True\<rparr>,
               q_head = 5, q_tail = 5, q_count = 32\<rparr>"
  by code_simp

theorem ring_buffer_fifo_witness:
  "queue_inv \<lparr>q_nodes = (replicate 32 \<lparr>n_event = zero_event, n_data_copy = NULL, n_used = False\<rparr>)
                 [31 := \<lparr>n_event = zero_event\<lparr>ev_id := 7\<rparr>, n_data_copy = 100, n_used = True\<rparr>,
                  0 := \<lparr>n_event = zero_event\<lparr>ev_id := 8\<rparr>, n_data_copy = NULL, n_used = True\<rparr>],
               q_head = 31, q_tail = 1, q_count = 2\<rparr> \<and>
   map (\<lambda>n. ev_id (n_event n))
     (queue_contents
        \<lparr>q_nodes = (replicate 32 \<lparr>n_event = zero_event, n_data_copy = NULL, n_used = False\<rparr>)
                 [31 := \<lparr>n_event = zero_event\<lparr>ev_id := 7\<rparr>, n_data_copy = 100, n_used = True\<rparr>,
                  0 := \<lparr>n_event = zero_event\<lparr>ev_id := 8\<rparr>, n_data_copy = NULL, n_used = True\<rparr>],
               q_head = 31, q_tail = 1, q_count = 2\<rparr>) = [7, 8] \<and>
   (case enqueue_event
        \<lparr>q_nodes = (replicate 32 \<lparr>n_event = zero_event, n_data_copy = NULL, n_used = False\<rparr>)
                 [31 := \<lparr>n_event = zero_event\<lparr>ev_id := 7\<rparr>, n_data_copy = 100, n_used = True\<rparr>,
                  0 := \<lparr>n_event = zero_event\<lparr>ev_id := 8\<rparr>, n_data_copy = NULL, n_used = True\<rparr>],
               q_head = 31, q_tail = 1, q_count = 2\<rparr>
        (zero_event\<lparr>ev_id := 9\<rparr>) NULL of
      Inl err \<Rightarrow> False
    | Inr queue' \<Rightarrow> queue_inv queue' \<and>
                     map (\<lambda>n. ev_id (n_event n)) (queue_contents queue') = [7, 8, 9]) \<and>
   (case dequeue_event
        \<lparr>q_nodes = (replicate 32 \<lparr>n_event = zero_event, n_data_copy = NULL, n_used = False\<rparr>)
                 [31 := \<lparr>n_event = zero_event\<lparr>ev_id := 7\<rparr>, n_data_copy = 100, n_used = True\<rparr>,
                  0 := \<lparr>n_event = zero_event\<lparr>ev_id := 8\<rparr>, n_data_copy = NULL, n_used = True\<rparr>],
               q_head = 31, q_tail = 1, q_count = 2\<rparr> of
      Inl err \<Rightarrow> False
    | Inr (queue', event', data_copy') \<Rightarrow>
        queue_inv queue' \<and> ev_id event' = 7 \<and> data_copy' = 100 \<and>
        map (\<lambda>n. ev_id (n_event n)) (queue_contents queue') = [8]) \<and>
   queue_inv init_queue \<and>
   dequeue_event init_queue = Inl EM_ERR_QUEUE_EMPTY \<and>
   queue_inv \<lparr>q_nodes = replicate 32 \<lparr>n_event = zero_event, n_data_copy = NULL, n_used = True\<rparr>,
               q_head = 5, q_tail = 5, q_count = 32\<rparr> \<and>
   enqueue_event \<lparr>q_nodes = replicate 32 \<lparr>n_event = zero_event, n_data_copy = NULL, n_used = True\<rparr>,
                   q_head = 5, q_tail = 5, q_count = 32\<rparr> (zero_event\<lparr>ev_id := 9\<rparr>) NULL
     = Inl EM_ERR_QUEUE_FULL"
proof -
  let ?q = "\<lparr>q_nodes = (replicate 32 \<lparr>n_event = zero_event, n_data_copy = NULL, n_used = False\<rparr>)
                 [31 := \<lparr>n_event = zero_event\<lparr>ev_id := 7\<rparr>, n_data_copy = 100, n_used = True\<rparr>,
                  0 := \<lparr>n_event = zero_event\<lparr>ev_id := 8\<rparr>, n_data_copy = NULL, n_used = True\<rparr>],
               q_head = 31, q_tail = 1, q_count = 2\<rparr>"
  have inv: "queue_inv ?q" by (rule queue_inv_example)
  have c: "map (\<lambda>n. ev_id (n_event n)) (queue_contents ?q) = [7, 8]"
    "map n_data_copy (queue_contents ?q) = [100, NULL]"
    by code_simp+
  have ne: "q_count ?q \<noteq> int EM_ASYNC_QUEUE_SIZE" "q_count ?q \<noteq> 0"
    by (simp_all add: EM_ASYNC_QUEUE_SIZE_def)
  note fifo = ring_buffer_fifo [OF inv, of "zero_event\<lparr>ev_id := 9\<rparr>" NULL]
  note f1 = fifo [THEN conjunct1]
  note f2 = fifo [THEN conjunct2, THEN conjunct1]
  note f3 = fifo [THEN conjunct2, THEN conjunct2, THEN conjunct1]
  note f4 = fifo [THEN conjunct2, THEN conjunct2, THEN conjunct2]
  have enq: "case enqueue_event ?q (zero_event\<lparr>ev_id := 9\<rparr>) NULL of
      Inl err \<Rightarrow> False
    | Inr queue' \<Rightarrow> queue_inv queue' \<and>
                     map (\<lambda>n. ev_id (n_event n)) (queue_contents queue') = [7, 8, 9]"
  proof (cases "enqueue_event ?q (zero_event\<lparr>ev_id := 9\<rparr>) NULL")
    case (Inl err)
    then have "err = EM_ERR_QUEUE_FULL" using f2 by simp
    then show ?thesis using Inl f1 ne(1) by simp
  next
    case (Inr queue')
    then show ?thesis using f2 c(1) by simp
  qed
  have deq: "case dequeue_event ?q of
      Inl err \<Rightarrow> False
    | Inr (queue', event', data_copy') \<Rightarrow>
        queue_inv queue' \<and> ev_id event' = 7 \<and> data_copy' = 100 \<and>
        map (\<lambda>n. ev_id (n_event n)) (queue_contents queue') = [8]"
  proof (cases "dequeue_event ?q")
    case (Inl err)
    then have "err = EM_ERR_QUEUE_EMPTY" using f4 by simp
    then show ?thesis using Inl f3 ne(2) by simp
  next
    case (Inr x)
    obtain queue' event' data_copy' where x: "x = (queue', event', data_copy')"
      by (cases x) auto
    have f: "queue_inv queue'" "queue_contents ?q \<noteq> []"
      "event' = n_event (hd (queue_contents ?q))"
      "data_copy' = n_data_copy (hd (queue_contents ?q))"
      "queue_contents queue' = tl (queue_contents ?q)"
      using f4 by (simp_all add: Inr x)
    have "ev_id event' = hd (map (\<lambda>n. ev_id (n_event n)) (queue_contents ?q))"
      "data_copy' = hd (map n_data_copy (queue_contents ?q))"
      "map (\<lambda>n. ev_id (n_event n)) (queue_contents queue')
         = tl (map (\<lambda>n. ev_id (n_event n)) (queue_contents ?q))"
      using f(2) by (simp_all add: f(3,4,5) hd_map map_tl)
    then show ?thesis
      using f(1) by (simp add: Inr x c)
  qed
  let ?full = "\<lparr>q_nodes = replicate 32 \<lparr>n_event = zero_event, n_data_copy = NULL, n_used = True\<rparr>,
                q_head = 5, q_tail = 5, q_count = 32\<rparr>"
  have inv_full: "queue_inv ?full" by (rule queue_inv_full_example)
  have full: "enqueue_event ?full (zero_event\<lparr>ev_id := 9\<rparr>) NULL = Inl EM_ERR_QUEUE_FULL"
    using ring_buffer_fifo [OF inv_full, of "zero_event\<lparr>ev_id := 9\<rparr>" NULL, THEN conjunct1]
    by (simp add: EM_ASYNC_QUEUE_SIZE_def)
  have empty: "dequeue_event init_queue = Inl EM_ERR_QUEUE_EMPTY"
    using ring_buffer_fifo [OF queue_inv_init, of zero_event NULL,
        THEN conjunct2, THEN conjunct2, THEN conjunct1]
    by (simp add: q_count_init)
  show ?thesis
    using inv c(1) enq deq queue_inv_init empty inv_full full by simp
qed

section \<open>Failing and copy-free asynchronous publishes\<close>

text \<open>
  C4. Let \<open>malloc\<close> answer with \<open>NULL\<close> or with a block that is not live yet. Whenever
  \<open>em_publish_async\<close> on a valid handle does not return \<open>EM_OK\<close>, the manager and
  the heap are what they were before the call. With valid event id and priority it returns
  \<open>EM_ERR_OUT_OF_MEMORY\<close> when a copy is wanted and the allocation fails, and
  \<open>EM_ERR_QUEUE_FULL\<close> when the allocation did not fail and the queue of the priority
  is full.
\<close>

theorem em_publish_async_failure:
  assumes "malloc_ret \<noteq> NULL \<longrightarrow> malloc_ret \<notin> heap"
    and "em_publish_async (Some m) heap malloc_ret event_id data data_size priority
           = (result, handle', heap')"
  shows "(result \<noteq> EM_OK \<longrightarrow> handle' = Some m \<and> heap' = heap) \<and>
         (unat event_id < EM_MAX_EVENT_TYPES \<and> priority < EM_PRIORITY_COUNT \<and>
          data \<noteq> NULL \<and> 0 < data_size \<and> malloc_ret = NULL
            \<longrightarrow> result = EM_ERR_OUT_OF_MEMORY) \<and>
         (unat event_id < EM_MAX_EVENT_TYPES \<and> priority < EM_PRIORITY_COUNT \<and>
          \<not> (data \<noteq> NULL \<and> 0 < data_size \<and> malloc_ret = NULL) \<and>
          int EM_ASYNC_QUEUE_SIZE \<le> q_count (async_queues m ! priority)
            \<longrightarrow> result = EM_ERR_QUEUE_FULL)"
proof -
  consider (invalid) "EM_MAX_EVENT_TYPES \<le> unat event_id \<or> EM_PRIORITY_COUNT \<le> priority"
    | (oom) "unat event_id < EM_MAX_EVENT_TYPES" "priority < EM_PRIORITY_COUNT"
        "data \<noteq> NULL \<and> 0 < data_size \<and> malloc_ret = NULL"
    | (enq) "unat event_id < EM_MAX_EVENT_TYPES" "priority < EM_PRIORITY_COUNT"
        "\<not> (data \<noteq> NULL \<and> 0 < data_size \<and> malloc_ret = NULL)"
    by linarith
  then show ?thesis
  proof cases
    case invalid
    then show ?thesis
      using assms(2) em_publish_async_invalid [OF invalid, of m heap malloc_ret data data_size]
      by auto
  next
    case oom
    then show ?thesis
      using assms(2) em_publish_async_oom [OF oom, of m heap] by auto
  next
    case enq
    define dc where "dc = (if data \<noteq> NULL \<and> 0 < data_size then malloc_ret else NULL)"
    define ev where "ev = \<lparr>ev_id = event_id, ev_data = (if dc \<noteq> NULL then dc else data),
                            ev_data_size = data_size, ev_priority = priority,
                            ev_mode = EM_MODE_ASYNC\<rparr>"
    note res = em_publish_async_enqueue [OF enq dc_def ev_def, of m heap]
    have fresh: "(if dc \<noteq> NULL then insert dc heap - {dc} else heap) = heap"
      using assms(1) by (auto simp: dc_def split: if_splits)
    show ?thesis
    proof (cases "enqueue_event (async_queues m ! priority) ev dc")
      case (Inl err)
      have err: "err = EM_ERR_QUEUE_FULL" using Inl by (rule enqueue_event_Inl)
      have "(result, handle', heap')
            = (err, Some m, (if dc \<noteq> NULL then insert dc heap - {dc} else heap))"
        using assms(2) by (simp only: res Inl sum.case)
      then have "result = err" "handle' = Some m" "heap' = heap"
        unfolding fresh by simp_all
      then show ?thesis
        using enq err by simp
    next
      case (Inr q')
      have "q_count (async_queues m ! priority) < int EM_ASYNC_QUEUE_SIZE"
        using Inr by (rule enqueue_event_Inr(1))
      then show ?thesis
        using assms(2) enq by (auto simp: res Inr)
    qed
  qed
qed


lemma full_queue_example:
  "map_option (\<lambda>m. q_count (async_queues m ! EM_PRIORITY_NORMAL))
     (fst (run (replicate 32 (PublishAsync NULL 0 NULL 0 EM_PRIORITY_NORMAL)))) = Some 32"
  by code_simp

theorem em_publish_async_failure_witness:
  "em_publish_async (em_create True) {} NULL 0 5 4 EM_PRIORITY_NORMAL
     = (EM_ERR_OUT_OF_MEMORY, em_create True, {}) \<and>
   (\<exists>m. fst (run (replicate 32 (PublishAsync NULL 0 NULL 0 EM_PRIORITY_NORMAL))) = Some m \<and>
        int EM_ASYNC_QUEUE_SIZE \<le> q_count (async_queues m ! EM_PRIORITY_NORMAL) \<and>
        em_publish_async (Some m) {} 7 0 5 4 EM_PRIORITY_NORMAL = (EM_ERR_QUEUE_FULL, Some m, {}))"
proof
  obtain m0 where m0: "em_create True = Some m0"
    by (simp add: em_create_def)
  obtain r h hp where a: "em_publish_async (Some m0) {} NULL 0 5 4 EM_PRIORITY_NORMAL = (r, h, hp)"
    by (cases "em_publish_async (Some m0) {} NULL 0 5 4 EM_PRIORITY_NORMAL") auto
  have "r = EM_ERR_OUT_OF_MEMORY"
    using em_publish_async_failure [OF _ a]
    by (simp add: EM_MAX_EVENT_TYPES_def EM_PRIORITY_COUNT_def EM_PRIORITY_NORMAL_def)
  moreover from this have "h = Some m0 \<and> hp = {}"
    using em_publish_async_failure [OF _ a] by simp
  ultimately show "em_publish_async (em_create True) {} NULL 0 5 4 EM_PRIORITY_NORMAL
     = (EM_ERR_OUT_OF_MEMORY, em_create True, {})"
    by (simp add: m0 a)
next
  let ?ops = "replicate 32 (PublishAsync NULL 0 NULL 0 EM_PRIORITY_NORMAL)"
  obtain m where m: "fst (run ?ops) = Some m"
    using run_inv [of ?ops] by blast
  have full: "int EM_ASYNC_QUEUE_SIZE \<le> q_count (async_queues m ! EM_PRIORITY_NORMAL)"
    using full_queue_example by (simp add: m EM_ASYNC_QUEUE_SIZE_def)
  obtain r h hp where a: "em_publish_async (Some m) {} 7 0 5 4 EM_PRIORITY_NORMAL = (r, h, hp)"
    by (cases "em_publish_async (Some m) {} 7 0 5 4 EM_PRIORITY_NORMAL") auto
  have "r = EM_ERR_QUEUE_FULL"
    using em_publish_async_failure [OF _ a] full
    by (simp add: EM_MAX_EVENT_TYPES_def EM_PRIORITY_COUNT_def EM_PRIORITY_NORMAL_def)
  moreover from this have "h = Some m \<and> hp = {}"
    using em_publish_async_failure [OF _ a] by simp
  ultimately show "\<exists>m. fst (run ?ops) = Some m \<and>
        int EM_ASYNC_QUEUE_SIZE \<le> q_count (async_queues m ! EM_PRIORITY_NORMAL) \<and>
        em_publish_async (Some m) {} 7 0 5 4 EM_PRIORITY_NORMAL = (EM_ERR_QUEUE_FULL, Some m, {})"
    using m full a by simp
qed

text \<open>
  C10. With a \<open>NULL\<close> payload pointer and a positive length, valid event id and
  priority, and room in the queue of the priority, \<open>em_publish_async\<close> returns
  \<open>EM_OK\<close> and leaves the heap as it is, whatever \<open>malloc\<close> would answer: no copy is
  allocated. The node it appends to the queue has the data pointer \<open>NULL\<close> and the
  owned-copy pointer \<open>NULL\<close>.
\<close>

theorem em_publish_async_null_payload:
  assumes "queues_inv m"
    and "unat event_id < EM_MAX_EVENT_TYPES" and "priority < EM_PRIORITY_COUNT"
    and "q_count (async_queues m ! priority) < int EM_ASYNC_QUEUE_SIZE"
    and "0 < data_size"
  shows "\<exists>m'. em_publish_async (Some m) heap malloc_ret event_id NULL data_size priority
                 = (EM_OK, Some m', heap) \<and>
              queue_contents (async_queues m' ! priority) =
                queue_contents (async_queues m ! priority) @
                  [\<lparr>n_event = \<lparr>ev_id = event_id, ev_data = NULL, ev_data_size = data_size,
                               ev_priority = priority, ev_mode = EM_MODE_ASYNC\<rparr>,
                    n_data_copy = NULL, n_used = True\<rparr>]"
proof -
  let ?ev = "\<lparr>ev_id = event_id, ev_data = NULL, ev_data_size = data_size,
              ev_priority = priority, ev_mode = EM_MODE_ASYNC\<rparr>"
  have dc: "NULL = (if (NULL::ptr) \<noteq> NULL \<and> 0 < data_size then malloc_ret else NULL)"
    by simp
  have ev: "?ev = \<lparr>ev_id = event_id, ev_data = (if (NULL::ptr) \<noteq> NULL then NULL else NULL),
                    ev_data_size = data_size, ev_priority = priority, ev_mode = EM_MODE_ASYNC\<rparr>"
    by simp
  have res: "em_publish_async (Some m) heap malloc_ret event_id NULL data_size priority =
         (case enqueue_event (async_queues m ! priority) ?ev NULL of
            Inl r \<Rightarrow> (r, Some m, heap)
          | Inr q' \<Rightarrow>
              (EM_OK,
               Some (m\<lparr>async_queues := (async_queues m)[priority := q'],
                       stats := (stats m)
                         \<lparr>events_published := events_published (stats m) + 1,
                          async_queue_current :=
                            queue_total (m\<lparr>async_queues := (async_queues m)[priority := q']\<rparr>),
                          async_queue_max :=
                            (if async_queue_max (stats m)
                                < queue_total (m\<lparr>async_queues := (async_queues m)[priority := q']\<rparr>)
                             then queue_total (m\<lparr>async_queues := (async_queues m)[priority := q']\<rparr>)
                             else async_queue_max (stats m))\<rparr>\<rparr>),
               heap))"
    using em_publish_async_enqueue [OF assms(2,3) _ dc ev, of m heap] by simp
  obtain q' where q': "enqueue_event (async_queues m ! priority) ?ev NULL = Inr q'"
    using enqueue_event_not_full [OF assms(4)] by blast
  have qi: "queue_inv (async_queues m ! priority)"
    using assms(1,3) by (rule queues_inv_nth)
  have len: "priority < length (async_queues m)"
    using assms(1,3) by (simp add: queues_inv_def)
  show ?thesis
    using contents_enq [OF qi q'] len
    by (simp add: res q')
qed

theorem em_publish_async_null_payload_witness:
  "\<exists>m m'. em_create True = Some m \<and>
          em_publish_async (Some m) {} 7 3 NULL 4 EM_PRIORITY_LOW = (EM_OK, Some m', {}) \<and>
          queue_contents (async_queues m' ! EM_PRIORITY_LOW) =
            [\<lparr>n_event = \<lparr>ev_id = 3, ev_data = NULL, ev_data_size = 4,
                         ev_priority = EM_PRIORITY_LOW, ev_mode = EM_MODE_ASYNC\<rparr>,
              n_data_copy = NULL, n_used = True\<rparr>]"
proof -
  obtain m where m: "em_create True = Some m" "queue_stats_inv m"
    using queue_stats_inv_create by blast
  have q: "queues_inv m" using m(2) by (simp add: queue_stats_inv_def)
  have low: "async_queues m ! EM_PRIORITY_LOW = init_queue"
    using m(1) by (auto simp: em_create_def EM_PRIORITY_LOW_def EM_PRIORITY_COUNT_def)
  have c: "q_count (async_queues m ! EM_PRIORITY_LOW) < int EM_ASYNC_QUEUE_SIZE"
    by (simp add: low q_count_init queue_size_pos)
  have e: "queue_contents (async_queues m ! EM_PRIORITY_LOW) = []"
    by (simp add: low queue_contents_def queue_slots_def q_count_init)
  have v: "unat (3 :: 32 word) < EM_MAX_EVENT_TYPES" "EM_PRIORITY_LOW < EM_PRIORITY_COUNT"
    "0 < (4::nat)"
    by (simp_all add: EM_MAX_EVENT_TYPES_def EM_PRIORITY_LOW_def EM_PRIORITY_COUNT_def)
  show ?thesis
    using em_publish_async_null_payload [OF q v(1,2) c v(3), of "{}" 7] m(1) e
    by auto
qed

section \<open>Processing one event\<close>

lemma process_scan_prefix:
  "\<forall>j \<in> set js. \<not> 0 < q_count (async_queues m ! j) \<Longrightarrow>
   process_scan (js @ rest) m r = process_scan rest m r"
  by (induction js) simp_all

lemma upt_split: "i < n \<Longrightarrow> [0..<n] = [0..<i] @ i # [Suc i..<n]"
  by (metis upt_conv_Cons upt_add_eq_append le_add_diff_inverse less_imp_le_nat zero_le add_0)

lemma dispatch_event_queues:
  "async_queues (fst (dispatch_event m e d)) = async_queues m"
  using dispatch_event_frame [of m e d] by (simp add: queue_frame_def)

text \<open>
  C5. For a manager whose queues satisfy the ring invariant: if all three queues are
  empty, \<open>em_process_one\<close> returns \<open>EM_ERR_QUEUE_EMPTY\<close> and changes nothing. If the
  queue of priority \<open>i\<close> holds an event and all queues of smaller index (more urgent
  priority) are empty, \<open>em_process_one\<close> returns \<open>EM_OK\<close>; it replaces queue \<open>i\<close> by
  the result of one \<open>dequeue_event\<close>, which takes the oldest node of that queue, leaves
  every other queue as it is, dispatches the dequeued event and frees its owned copy.
\<close>

theorem em_process_one_priority:
  assumes "queues_inv m"
  shows "((\<forall>i \<in> {0..<EM_PRIORITY_COUNT}. q_count (async_queues m ! i) = 0) \<longrightarrow>
            em_process_one (Some m) heap = (EM_ERR_QUEUE_EMPTY, Some m, heap, [])) \<and>
         (i < EM_PRIORITY_COUNT \<and> 0 < q_count (async_queues m ! i) \<and>
          (\<forall>j \<in> {0..<i}. q_count (async_queues m ! j) = 0) \<longrightarrow>
            (\<exists>queue' event data_copy m' calls.
               dequeue_event (async_queues m ! i) = Inr (queue', event, data_copy) \<and>
               event = n_event (hd (queue_contents (async_queues m ! i))) \<and>
               data_copy = n_data_copy (hd (queue_contents (async_queues m ! i))) \<and>
               queue_contents queue' = tl (queue_contents (async_queues m ! i)) \<and>
               em_process_one (Some m) heap
                 = (EM_OK, Some m', (if data_copy \<noteq> NULL then heap - {data_copy} else heap), calls) \<and>
               (m', calls) =
                 dispatch_event
                   (m\<lparr>async_queues := (async_queues m)[i := queue'],
                      stats := (stats m)\<lparr>async_queue_current :=
                         queue_total (m\<lparr>async_queues := (async_queues m)[i := queue']\<rparr>)\<rparr>\<rparr>)
                   (ev_id event) (ev_data event) \<and>
               async_queues m' = (async_queues m)[i := queue']))"
proof (intro conjI impI)
  assume "\<forall>i \<in> {0..<EM_PRIORITY_COUNT}. q_count (async_queues m ! i) = 0"
  then have "\<forall>j \<in> set [0..<EM_PRIORITY_COUNT]. \<not> 0 < q_count (async_queues m ! j)"
    by simp
  from process_scan_prefix [OF this, of "[]" EM_ERR_QUEUE_EMPTY]
  have "process_scan [0..<EM_PRIORITY_COUNT] m EM_ERR_QUEUE_EMPTY = (EM_ERR_QUEUE_EMPTY, m, None)"
    by simp
  then show "em_process_one (Some m) heap = (EM_ERR_QUEUE_EMPTY, Some m, heap, [])"
    by (simp add: em_process_one_def)
next
  assume a: "i < EM_PRIORITY_COUNT \<and> 0 < q_count (async_queues m ! i) \<and>
          (\<forall>j \<in> {0..<i}. q_count (async_queues m ! j) = 0)"
  then have i: "i < EM_PRIORITY_COUNT" and pos: "0 < q_count (async_queues m ! i)"
    and before: "\<forall>j \<in> set [0..<i]. \<not> 0 < q_count (async_queues m ! j)"
    by simp_all
  have qi: "queue_inv (async_queues m ! i)"
    using assms i by (rule queues_inv_nth)
  obtain queue' event data_copy
    where deq: "dequeue_event (async_queues m ! i) = Inr (queue', event, data_copy)"
    using dequeue_event_nonempty [of "async_queues m ! i"] pos by auto
  define m1 where "m1 = m\<lparr>async_queues := (async_queues m)[i := queue'],
                      stats := (stats m)\<lparr>async_queue_current :=
                         queue_total (m\<lparr>async_queues := (async_queues m)[i := queue']\<rparr>)\<rparr>\<rparr>"
  have "process_scan [0..<EM_PRIORITY_COUNT] m EM_ERR_QUEUE_EMPTY
        = process_scan (i # [Suc i..<EM_PRIORITY_COUNT]) m EM_ERR_QUEUE_EMPTY"
    unfolding upt_split [OF i] using before by (rule process_scan_prefix)
  then have scan: "process_scan [0..<EM_PRIORITY_COUNT] m EM_ERR_QUEUE_EMPTY
        = (EM_OK, m1, Some (event, data_copy))"
    by (simp only: process_scan_dequeue [OF pos deq] m1_def)
  obtain m' calls where d: "dispatch_event m1 (ev_id event) (ev_data event) = (m', calls)"
    by (cases "dispatch_event m1 (ev_id event) (ev_data event)") auto
  have res: "em_process_one (Some m) heap
        = (EM_OK, Some m', (if data_copy \<noteq> NULL then heap - {data_copy} else heap), calls)"
    by (simp add: em_process_one_def scan d)
  have "async_queues m' = async_queues m1"
    using dispatch_event_queues [of m1 "ev_id event" "ev_data event"] by (simp add: d)
  then have qs: "async_queues m' = (async_queues m)[i := queue']"
    by (simp add: m1_def)
  have c: "queue_contents (async_queues m ! i)
           = q_nodes (async_queues m ! i) ! nat (q_head (async_queues m ! i)) # queue_contents queue'"
    using qi deq by (rule contents_deq)
  have "event = n_event (hd (queue_contents (async_queues m ! i)))"
    "data_copy = n_data_copy (hd (queue_contents (async_queues m ! i)))"
    "queue_contents queue' = tl (queue_contents (async_queues m ! i))"
    using dequeue_event_Inr(3,4) [OF deq] by (simp_all add: c)
  then show "\<exists>queue' event data_copy m' calls.
               dequeue_event (async_queues m ! i) = Inr (queue', event, data_copy) \<and>
               event = n_event (hd (queue_contents (async_queues m ! i))) \<and>
               data_copy = n_data_copy (hd (queue_contents (async_queues m ! i))) \<and>
               queue_contents queue' = tl (queue_contents (async_queues m ! i)) \<and>
               em_process_one (Some m) heap
                 = (EM_OK, Some m', (if data_copy \<noteq> NULL then heap - {data_copy} else heap), calls) \<and>
               (m', calls) =
                 dispatch_event
                   (m\<lparr>async_queues := (async_queues m)[i := queue'],
                      stats := (stats m)\<lparr>async_queue_current :=
                         queue_total (m\<lparr>async_queues := (async_queues m)[i := queue']\<rparr>)\<rparr>\<rparr>)
                   (ev_id event) (ev_data event) \<and>
               async_queues m' = (async_queues m)[i := queue']"
    using deq res qs d unfolding m1_def by (intro exI [of _ queue'] exI [of _ event]
        exI [of _ data_copy] exI [of _ m'] exI [of _ calls]) simp
qed


lemma two_pending_example:
  "map_option (\<lambda>m. (map q_count (async_queues m),
                      n_data_copy (hd (queue_contents (async_queues m ! EM_PRIORITY_NORMAL)))))
     (fst (run [PublishAsync NULL 2 NULL 0 EM_PRIORITY_LOW, PublishAsync 7 1 5 4 EM_PRIORITY_NORMAL]))
   = Some ([0, 1, 1], 7)"
  by code_simp

theorem em_process_one_priority_witness:
  "em_process_one (em_create True) {} = (EM_ERR_QUEUE_EMPTY, em_create True, {}, []) \<and>
   (\<exists>m m' calls.
      fst (run [PublishAsync NULL 2 NULL 0 EM_PRIORITY_LOW, PublishAsync 7 1 5 4 EM_PRIORITY_NORMAL])
        = Some m \<and>
      q_count (async_queues m ! EM_PRIORITY_HIGH) = 0 \<and>
      0 < q_count (async_queues m ! EM_PRIORITY_NORMAL) \<and>
      0 < q_count (async_queues m ! EM_PRIORITY_LOW) \<and>
      em_process_one (Some m) {7} = (EM_OK, Some m', {}, calls) \<and>
      q_count (async_queues m' ! EM_PRIORITY_NORMAL) = 0 \<and>
      async_queues m' ! EM_PRIORITY_LOW = async_queues m ! EM_PRIORITY_LOW)"
proof
  obtain m0 where m0: "em_create True = Some m0" "queue_stats_inv m0"
    using queue_stats_inv_create by blast
  have q0: "queues_inv m0" using m0(2) by (simp add: queue_stats_inv_def)
  have "\<forall>i \<in> {0..<EM_PRIORITY_COUNT}. q_count (async_queues m0 ! i) = 0"
    using m0(1) by (auto simp: em_create_def q_count_init)
  then show "em_process_one (em_create True) {} = (EM_ERR_QUEUE_EMPTY, em_create True, {}, [])"
    using em_process_one_priority [OF q0, of "{}" 0] by (simp add: m0(1))
next
  let ?ops = "[PublishAsync NULL 2 NULL 0 EM_PRIORITY_LOW, PublishAsync 7 1 5 4 EM_PRIORITY_NORMAL]"
  obtain m where m: "fst (run ?ops) = Some m" "queue_stats_inv m"
    using run_inv [of ?ops] by blast
  have q: "queues_inv m" using m(2) by (simp add: queue_stats_inv_def)
  have len: "length (async_queues m) = 3"
    using q by (simp add: queues_inv_def EM_PRIORITY_COUNT_def)
  have ex: "map q_count (async_queues m) = [0, 1, 1]"
    "n_data_copy (hd (queue_contents (async_queues m ! EM_PRIORITY_NORMAL))) = 7"
    using two_pending_example by (simp_all add: m(1))
  have "q_count (async_queues m ! 0) = map q_count (async_queues m) ! 0"
    "q_count (async_queues m ! 1) = map q_count (async_queues m) ! 1"
    "q_count (async_queues m ! 2) = map q_count (async_queues m) ! 2"
    using len by simp_all
  then have counts: "q_count (async_queues m ! EM_PRIORITY_HIGH) = 0"
    "q_count (async_queues m ! EM_PRIORITY_NORMAL) = 1"
    "q_count (async_queues m ! EM_PRIORITY_LOW) = 1"
    by (simp_all add: ex(1) EM_PRIORITY_HIGH_def EM_PRIORITY_NORMAL_def EM_PRIORITY_LOW_def)
  have pre: "EM_PRIORITY_NORMAL < EM_PRIORITY_COUNT \<and>
             0 < q_count (async_queues m ! EM_PRIORITY_NORMAL) \<and>
             (\<forall>j \<in> {0..<EM_PRIORITY_NORMAL}. q_count (async_queues m ! j) = 0)"
    using counts by (simp add: EM_PRIORITY_NORMAL_def EM_PRIORITY_COUNT_def EM_PRIORITY_HIGH_def)
  obtain queue' event data_copy m' calls where r:
    "dequeue_event (async_queues m ! EM_PRIORITY_NORMAL) = Inr (queue', event, data_copy)"
    "data_copy = n_data_copy (hd (queue_contents (async_queues m ! EM_PRIORITY_NORMAL)))"
    "em_process_one (Some m) {7}
       = (EM_OK, Some m', (if data_copy \<noteq> NULL then {7} - {data_copy} else {7}), calls)"
    "async_queues m' = (async_queues m)[EM_PRIORITY_NORMAL := queue']"
    using em_process_one_priority [OF q, of "{7}" EM_PRIORITY_NORMAL] pre by blast
  have dc: "data_copy = 7" using r(2) ex(2) by simp
  have "q_count queue' = q_count (async_queues m ! EM_PRIORITY_NORMAL) - 1"
    using dequeue_event_Inr(2) [OF r(1)] by simp
  then have c': "q_count (async_queues m' ! EM_PRIORITY_NORMAL) = 0"
    using len counts(2) by (simp add: r(4) EM_PRIORITY_NORMAL_def)
  have low: "async_queues m' ! EM_PRIORITY_LOW = async_queues m ! EM_PRIORITY_LOW"
    by (simp add: r(4) EM_PRIORITY_NORMAL_def EM_PRIORITY_LOW_def)
  have "em_process_one (Some m) {7} = (EM_OK, Some m', {}, calls)"
    using r(3) by (simp add: dc)
  then show "\<exists>m m' calls.
      fst (run ?ops) = Some m \<and>
      q_count (async_queues m ! EM_PRIORITY_HIGH) = 0 \<and>
      0 < q_count (async_queues m ! EM_PRIORITY_NORMAL) \<and>
      0 < q_count (async_queues m ! EM_PRIORITY_LOW) \<and>
      em_process_one (Some m) {7} = (EM_OK, Some m', {}, calls) \<and>
      q_count (async_queues m' ! EM_PRIORITY_NORMAL) = 0 \<and>
      async_queues m' ! EM_PRIORITY_LOW = async_queues m ! EM_PRIORITY_LOW"
    using m(1) counts c' low by auto
qed

section \<open>Duplicate subscription and the subscribe/unsubscribe round trip\<close>

lemma find_upt_Some:
  "find P [0..<n] = Some i \<longleftrightarrow> i < n \<and> P i \<and> (\<forall>j<i. \<not> P j)"
proof
  assume "find P [0..<n] = Some i"
  then obtain k where k: "k < length [0..<n]" "P ([0..<n] ! k)" "i = [0..<n] ! k"
    "\<forall>j<k. \<not> P ([0..<n] ! j)"
    unfolding find_Some_iff by blast
  then have "i = k" "k < n" by simp_all
  then show "i < n \<and> P i \<and> (\<forall>j<i. \<not> P j)"
    using k by auto
next
  assume a: "i < n \<and> P i \<and> (\<forall>j<i. \<not> P j)"
  show "find P [0..<n] = Some i"
    unfolding find_Some_iff
    using a by (intro exI [of _ i]) auto
qed

lemma find_active_None:
  "find (\<lambda>i. sub_active (l_subscribers list ! i) \<and> sub_callback (l_subscribers list ! i) = c)
     [0..<EM_MAX_SUBSCRIBERS] = None \<longleftrightarrow> \<not> has_active_slot list c"
  by (auto simp: find_None_iff has_active_slot_def)

lemma em_subscribe_duplicate_result:
  assumes "c \<noteq> NULL" "unat e < EM_MAX_EVENT_TYPES" "p < EM_PRIORITY_COUNT"
    and "has_active_slot (event_subscribers m ! unat e) c"
  shows "em_subscribe (Some m) e c u p
         = ((if int EM_MAX_SUBSCRIBERS \<le> l_count (event_subscribers m ! unat e)
             then EM_ERR_MAX_SUBSCRIBERS else EM_OK), Some m)"
proof -
  obtain i where "find (\<lambda>i. sub_active (l_subscribers (event_subscribers m ! unat e) ! i) \<and>
                            sub_callback (l_subscribers (event_subscribers m ! unat e) ! i) = c)
                    [0..<EM_MAX_SUBSCRIBERS] = Some i"
    using assms(4) find_active_None [of "event_subscribers m ! unat e" c] by fastforce
  then show ?thesis
    using assms(1-3) by (simp add: em_subscribe_def Let_def)
qed

lemma em_subscribe_cases:
  "snd (em_subscribe (Some m) e c u p) = Some m \<or>
   (c \<noteq> NULL \<and> unat e < EM_MAX_EVENT_TYPES \<and> p < EM_PRIORITY_COUNT \<and>
    \<not> has_active_slot (event_subscribers m ! unat e) c \<and>
    (\<exists>i. i < EM_MAX_SUBSCRIBERS \<and>
         \<not> sub_active (l_subscribers (event_subscribers m ! unat e) ! i) \<and>
         snd (em_subscribe (Some m) e c u p) =
           Some (m\<lparr>event_subscribers := (event_subscribers m)[unat e :=
                      (event_subscribers m ! unat e)
                        \<lparr>l_subscribers := (l_subscribers (event_subscribers m ! unat e))[i :=
                             \<lparr>sub_callback = c, sub_user_data = u,
                              sub_priority = p, sub_active = True\<rparr>],
                         l_count := l_count (event_subscribers m ! unat e) + 1,
                         l_sorted := False\<rparr>],
                   stats := (stats m)\<lparr>subscribers_total := subscribers_total (stats m) + 1\<rparr>\<rparr>)))"
proof -
  let ?list = "event_subscribers m ! unat e"
  let ?dup = "find (\<lambda>i. sub_active (l_subscribers ?list ! i) \<and> sub_callback (l_subscribers ?list ! i) = c)
                [0..<EM_MAX_SUBSCRIBERS]"
  let ?free = "find (\<lambda>i. \<not> sub_active (l_subscribers ?list ! i)) [0..<EM_MAX_SUBSCRIBERS]"
  show ?thesis
  proof (cases "c \<noteq> NULL \<and> unat e < EM_MAX_EVENT_TYPES \<and> p < EM_PRIORITY_COUNT \<and>
                \<not> int EM_MAX_SUBSCRIBERS \<le> l_count ?list \<and> ?dup = None \<and> ?free \<noteq> None")
    case False
    then show ?thesis
      by (auto simp: em_subscribe_def Let_def split: option.splits)
  next
    case True
    then obtain i where i: "?free = Some i" by auto
    then have free: "i < EM_MAX_SUBSCRIBERS" "\<not> sub_active (l_subscribers ?list ! i)"
      by (simp_all add: find_upt_Some)
    have nodup: "\<not> has_active_slot ?list c"
      using True find_active_None [of ?list c] by simp
    have res: "snd (em_subscribe (Some m) e c u p) =
           Some (m\<lparr>event_subscribers := (event_subscribers m)[unat e :=
                      ?list\<lparr>l_subscribers := (l_subscribers ?list)[i :=
                             \<lparr>sub_callback = c, sub_user_data = u,
                              sub_priority = p, sub_active = True\<rparr>],
                         l_count := l_count ?list + 1,
                         l_sorted := False\<rparr>],
                   stats := (stats m)\<lparr>subscribers_total := subscribers_total (stats m) + 1\<rparr>\<rparr>)"
      using True i by (simp add: em_subscribe_def Let_def)
    show ?thesis
      using True free nodup res by blast
  qed
qed

lemma manager_arrays_nth:
  assumes "manager_arrays m" "unat e < EM_MAX_EVENT_TYPES"
  shows "unat e < length (event_subscribers m)"
    and "length (l_subscribers (event_subscribers m ! unat e)) = EM_MAX_SUBSCRIBERS"
  using assms by (simp_all add: manager_arrays_def)

text \<open>
  Whatever a duplicate subscription returns, it changes nothing: a call for a pair that
  has an active slot leaves the manager as it is, and the same call made twice in a row
  leaves the state that one call leaves.
\<close>

lemma em_subscribe_duplicate_state:
  assumes "manager_arrays m"
  shows "(has_active_slot (event_subscribers m ! unat event_id) callback \<longrightarrow>
            snd (em_subscribe (Some m) event_id callback user_data priority) = Some m) \<and>
         snd (em_subscribe (snd (em_subscribe (Some m) event_id callback user_data priority))
                event_id callback user_data priority)
           = snd (em_subscribe (Some m) event_id callback user_data priority)"
proof (intro conjI impI)
  assume "has_active_slot (event_subscribers m ! unat event_id) callback"
  then show "snd (em_subscribe (Some m) event_id callback user_data priority) = Some m"
    using em_subscribe_cases [of m event_id callback user_data priority] by blast
next
  let ?list = "event_subscribers m ! unat event_id"
  let ?once = "snd (em_subscribe (Some m) event_id callback user_data priority)"
  from em_subscribe_cases [of m event_id callback user_data priority]
  show "snd (em_subscribe ?once event_id callback user_data priority) = ?once"
  proof
    assume "?once = Some m"
    then show ?thesis by simp
  next
    assume "callback \<noteq> NULL \<and> unat event_id < EM_MAX_EVENT_TYPES \<and> priority < EM_PRIORITY_COUNT \<and>
      \<not> has_active_slot ?list callback \<and>
      (\<exists>i. i < EM_MAX_SUBSCRIBERS \<and> \<not> sub_active (l_subscribers ?list ! i) \<and>
         ?once =
           Some (m\<lparr>event_subscribers := (event_subscribers m)[unat event_id :=
                      ?list\<lparr>l_subscribers := (l_subscribers ?list)[i :=
                             \<lparr>sub_callback = callback, sub_user_data = user_data,
                              sub_priority = priority, sub_active = True\<rparr>],
                         l_count := l_count ?list + 1,
                         l_sorted := False\<rparr>],
                   stats := (stats m)\<lparr>subscribers_total := subscribers_total (stats m) + 1\<rparr>\<rparr>))"
    then obtain i where valid: "callback \<noteq> NULL" "unat event_id < EM_MAX_EVENT_TYPES"
        "priority < EM_PRIORITY_COUNT"
      and i: "i < EM_MAX_SUBSCRIBERS"
      and once: "?once =
           Some (m\<lparr>event_subscribers := (event_subscribers m)[unat event_id :=
                      ?list\<lparr>l_subscribers := (l_subscribers ?list)[i :=
                             \<lparr>sub_callback = callback, sub_user_data = user_data,
                              sub_priority = priority, sub_active = True\<rparr>],
                         l_count := l_count ?list + 1,
                         l_sorted := False\<rparr>],
                   stats := (stats m)\<lparr>subscribers_total := subscribers_total (stats m) + 1\<rparr>\<rparr>)"
      by blast
    note len = manager_arrays_nth [OF assms valid(2)]
    have "has_active_slot
            (?list\<lparr>l_subscribers := (l_subscribers ?list)[i :=
                             \<lparr>sub_callback = callback, sub_user_data = user_data,
                              sub_priority = priority, sub_active = True\<rparr>],
                         l_count := l_count ?list + 1,
                         l_sorted := False\<rparr>) callback"
      unfolding has_active_slot_def using i len(2) by (intro bexI [of _ i]) simp_all
    then show ?thesis
      unfolding once
      using len(1) valid
      by (subst em_subscribe_duplicate_result) simp_all
  qed
qed


text \<open>
  C2, evaluated on the code. Sixteen callbacks subscribe to event 0, callback 1 among
  them, so the table of the event is full and callback 1 has an active slot. Subscribing
  callback 1 again returns \<open>EM_ERR_MAX_SUBSCRIBERS\<close>, not \<open>EM_OK\<close>: the capacity guard
  comes before the search for a duplicate. With fifteen subscribers the same duplicate
  call returns \<open>EM_OK\<close>.
\<close>

theorem em_subscribe_duplicate_full_table:
  "is_subscribed
     (fst (run [
        Subscribe 0 1 NULL EM_PRIORITY_NORMAL,
        Subscribe 0 2 NULL EM_PRIORITY_NORMAL,
        Subscribe 0 3 NULL EM_PRIORITY_NORMAL,
        Subscribe 0 4 NULL EM_PRIORITY_NORMAL,
        Subscribe 0 5 NULL EM_PRIORITY_NORMAL,
        Subscribe 0 6 NULL EM_PRIORITY_NORMAL,
        Subscribe 0 7 NULL EM_PRIORITY_NORMAL,
        Subscribe 0 8 NULL EM_PRIORITY_NORMAL,
        Subscribe 0 9 NULL EM_PRIORITY_NORMAL,
        Subscribe 0 10 NULL EM_PRIORITY_NORMAL,
        Subscribe 0 11 NULL EM_PRIORITY_NORMAL,
        Subscribe 0 12 NULL EM_PRIORITY_NORMAL,
        Subscribe 0 13 NULL EM_PRIORITY_NORMAL,
        Subscribe 0 14 NULL EM_PRIORITY_NORMAL,
        Subscribe 0 15 NULL EM_PRIORITY_NORMAL,
        Subscribe 0 16 NULL EM_PRIORITY_NORMAL])) 0 1 \<and>
   em_get_subscriber_count
     (fst (run [
        Subscribe 0 1 NULL EM_PRIORITY_NORMAL,
        Subscribe 0 2 NULL EM_PRIORITY_NORMAL,
        Subscribe 0 3 NULL EM_PRIORITY_NORMAL,
        Subscribe 0 4 NULL EM_PRIORITY_NORMAL,
        Subscribe 0 5 NULL EM_PRIORITY_NORMAL,
        Subscribe 0 6 NULL EM_PRIORITY_NORMAL,
        Subscribe 0 7 NULL EM_PRIORITY_NORMAL,
        Subscribe 0 8 NULL EM_PRIORITY_NORMAL,
        Subscribe 0 9 NULL EM_PRIORITY_NORMAL,
        Subscribe 0 10 NULL EM_PRIORITY_NORMAL,
        Subscribe 0 11 NULL EM_PRIORITY_NORMAL,
        Subscribe 0 12 NULL EM_PRIORITY_NORMAL,
        Subscribe 0 13 NULL EM_PRIORITY_NORMAL,
        Subscribe 0 14 NULL EM_PRIORITY_NORMAL,
        Subscribe 0 15 NULL EM_PRIORITY_NORMAL,
        Subscribe 0 16 NULL EM_PRIORITY_NORMAL])) 0 = 16 \<and>
   fst (em_subscribe
     (fst (run [
        Subscribe 0 1 NULL EM_PRIORITY_NORMAL,
        Subscribe 0 2 NULL EM_PRIORITY_NORMAL,
        Subscribe 0 3 NULL EM_PRIORITY_NORMAL,
        Subscribe 0 4 NULL EM_PRIORITY_NORMAL,
        Subscribe 0 5 NULL EM_PRIORITY_NORMAL,
        Subscribe 0 6 NULL EM_PRIORITY_NORMAL,
        Subscribe 0 7 NULL EM_PRIORITY_NORMAL,
        Subscribe 0 8 NULL EM_PRIORITY_NORMAL,
        Subscribe 0 9 NULL EM_PRIORITY_NORMAL,
        Subscribe 0 10 NULL EM_PRIORITY_NORMAL,
        Subscribe 0 11 NULL EM_PRIORITY_NORMAL,
        Subscribe 0 12 NULL EM_PRIORITY_NORMAL,
        Subscribe 0 13 NULL EM_PRIORITY_NORMAL,
        Subscribe 0 14 NULL EM_PRIORITY_NORMAL,
        Subscribe 0 15 NULL EM_PRIORITY_NORMAL,
        Subscribe 0 16 NULL EM_PRIORITY_NORMAL])) 0 1 NULL EM_PRIORITY_NORMAL) = EM_ERR_MAX_SUBSCRIBERS \<and>
   fst (em_subscribe
     (fst (run [
        Subscribe 0 1 NULL EM_PRIORITY_NORMAL,
        Subscribe 0 2 NULL EM_PRIORITY_NORMAL,
        Subscribe 0 3 NULL EM_PRIORITY_NORMAL,
        Subscribe 0 4 NULL EM_PRIORITY_NORMAL,
        Subscribe 0 5 NULL EM_PRIORITY_NORMAL,
        Subscribe 0 6 NULL EM_PRIORITY_NORMAL,
        Subscribe 0 7 NULL EM_PRIORITY_NORMAL,
        Subscribe 0 8 NULL EM_PRIORITY_NORMAL,
        Subscribe 0 9 NULL EM_PRIORITY_NORMAL,
        Subscribe 0 10 NULL EM_PRIORITY_NORMAL,
        Subscribe 0 11 NULL EM_PRIORITY_NORMAL,
        Subscribe 0 12 NULL EM_PRIORITY_NORMAL,
        Subscribe 0 13 NULL EM_PRIORITY_NORMAL,
        Subscribe 0 14 NULL EM_PRIORITY_NORMAL,
        Subscribe 0 15 NULL EM_PRIORITY_NORMAL])) 0 1 NULL EM_PRIORITY_NORMAL) = EM_OK"
  by code_simp

subsection \<open>Subscribe, then unsubscribe\<close>

lemma em_unsubscribe_absent:
  assumes "\<not> is_subscribed (Some m) e c"
  shows "em_unsubscribe (Some m) e c
         = ((if c = NULL \<or> EM_MAX_EVENT_TYPES \<le> unat e then EM_ERR_INVALID_PARAM
             else EM_ERR_NOT_FOUND), Some m)"
proof (cases "c = NULL \<or> EM_MAX_EVENT_TYPES \<le> unat e")
  case True
  then show ?thesis by (auto simp: em_unsubscribe_def)
next
  case False
  then have "\<not> has_active_slot (event_subscribers m ! unat e) c"
    using assms by (simp add: is_subscribed_def)
  then have "find (\<lambda>i. sub_active (l_subscribers (event_subscribers m ! unat e) ! i) \<and>
                        sub_callback (l_subscribers (event_subscribers m ! unat e) ! i) = c)
               [0..<EM_MAX_SUBSCRIBERS] = None"
    by (simp add: find_active_None)
  then show ?thesis
    using False by (simp add: em_unsubscribe_def Let_def)
qed

lemma em_unsubscribe_found:
  assumes "c \<noteq> NULL" "unat e < EM_MAX_EVENT_TYPES"
    and "find (\<lambda>i. sub_active (l_subscribers (event_subscribers m ! unat e) ! i) \<and>
                   sub_callback (l_subscribers (event_subscribers m ! unat e) ! i) = c)
           [0..<EM_MAX_SUBSCRIBERS] = Some i"
  shows "em_unsubscribe (Some m) e c =
         (EM_OK,
          Some (m\<lparr>event_subscribers := (event_subscribers m)[unat e :=
                     (event_subscribers m ! unat e)
                       \<lparr>l_subscribers := (l_subscribers (event_subscribers m ! unat e))[i :=
                            (l_subscribers (event_subscribers m ! unat e) ! i)
                              \<lparr>sub_active := False, sub_callback := NULL, sub_user_data := NULL\<rparr>],
                        l_count := l_count (event_subscribers m ! unat e) - 1\<rparr>],
                  stats := (stats m)\<lparr>subscribers_total := subscribers_total (stats m) - 1\<rparr>\<rparr>))"
  using assms by (simp add: em_unsubscribe_def Let_def)

text \<open>
  C7, as the code has it. If the callback has no active slot for the event before the
  two calls, \<open>em_subscribe\<close> followed by \<open>em_unsubscribe\<close> of the same pair leaves
  the subscriber count of the event and \<open>subscribers_total\<close> at their old values.
\<close>

theorem em_subscribe_unsubscribe_roundtrip:
  assumes "manager_arrays m"
    and "\<not> is_subscribed (Some m) event_id callback"
  shows "\<exists>m''. snd (em_unsubscribe
                      (snd (em_subscribe (Some m) event_id callback user_data priority))
                      event_id callback) = Some m'' \<and>
               em_get_subscriber_count (Some m'') event_id
                 = em_get_subscriber_count (Some m) event_id \<and>
               subscribers_total (stats m'') = subscribers_total (stats m)"
proof -
  let ?list = "event_subscribers m ! unat event_id"
  let ?once = "snd (em_subscribe (Some m) event_id callback user_data priority)"
  from em_subscribe_cases [of m event_id callback user_data priority]
  show ?thesis
  proof
    assume "?once = Some m"
    then show ?thesis
      using em_unsubscribe_absent [OF assms(2)] by simp
  next
    assume "callback \<noteq> NULL \<and> unat event_id < EM_MAX_EVENT_TYPES \<and> priority < EM_PRIORITY_COUNT \<and>
      \<not> has_active_slot ?list callback \<and>
      (\<exists>i. i < EM_MAX_SUBSCRIBERS \<and> \<not> sub_active (l_subscribers ?list ! i) \<and>
         ?once =
           Some (m\<lparr>event_subscribers := (event_subscribers m)[unat event_id :=
                      ?list\<lparr>l_subscribers := (l_subscribers ?list)[i :=
                             \<lparr>sub_callback = callback, sub_user_data = user_data,
                              sub_priority = priority, sub_active = True\<rparr>],
                         l_count := l_count ?list + 1,
                         l_sorted := False\<rparr>],
                   stats := (stats m)\<lparr>subscribers_total := subscribers_total (stats m) + 1\<rparr>\<rparr>))"
    then obtain i where valid: "callback \<noteq> NULL" "unat event_id < EM_MAX_EVENT_TYPES"
      and nodup: "\<not> has_active_slot ?list callback"
      and i: "i < EM_MAX_SUBSCRIBERS"
      and once: "?once =
           Some (m\<lparr>event_subscribers := (event_subscribers m)[unat event_id :=
                      ?list\<lparr>l_subscribers := (l_subscribers ?list)[i :=
                             \<lparr>sub_callback = callback, sub_user_data = user_data,
                              sub_priority = priority, sub_active = True\<rparr>],
                         l_count := l_count ?list + 1,
                         l_sorted := False\<rparr>],
                   stats := (stats m)\<lparr>subscribers_total := subscribers_total (stats m) + 1\<rparr>\<rparr>)"
      by blast
    note len = manager_arrays_nth [OF assms(1) valid(2)]
    define subs' where "subs' = (l_subscribers ?list)[i :=
                             \<lparr>sub_callback = callback, sub_user_data = user_data,
                              sub_priority = priority, sub_active = True\<rparr>]"
    define list' where "list' = ?list\<lparr>l_subscribers := subs', l_count := l_count ?list + 1,
                                      l_sorted := False\<rparr>"
    define m' where "m' = m\<lparr>event_subscribers := (event_subscribers m)[unat event_id := list'],
                   stats := (stats m)\<lparr>subscribers_total := subscribers_total (stats m) + 1\<rparr>\<rparr>"
    have once': "?once = Some m'"
      by (simp add: once m'_def list'_def subs'_def)
    have nth': "event_subscribers m' ! unat event_id = list'"
      using len(1) by (simp add: m'_def)
    have earlier: "\<And>j. j < i \<Longrightarrow>
        \<not> (sub_active (subs' ! j) \<and> sub_callback (subs' ! j) = callback)"
    proof -
      fix j assume j: "j < i"
      then have "j \<in> {0..<EM_MAX_SUBSCRIBERS}" using i by simp
      then have "\<not> (sub_active (l_subscribers ?list ! j) \<and>
                    sub_callback (l_subscribers ?list ! j) = callback)"
        using nodup unfolding has_active_slot_def by blast
      then show "\<not> (sub_active (subs' ! j) \<and> sub_callback (subs' ! j) = callback)"
        using j by (simp add: subs'_def)
    qed
    have "find (\<lambda>k. sub_active (l_subscribers list' ! k) \<and>
                     sub_callback (l_subscribers list' ! k) = callback)
            [0..<EM_MAX_SUBSCRIBERS] = Some i"
      unfolding find_upt_Some
      using i len(2) earlier by (simp add: list'_def) (simp add: subs'_def)
    then have f: "find (\<lambda>k. sub_active (l_subscribers (event_subscribers m' ! unat event_id) ! k) \<and>
                     sub_callback (l_subscribers (event_subscribers m' ! unat event_id) ! k) = callback)
            [0..<EM_MAX_SUBSCRIBERS] = Some i"
      by (simp add: nth')
    define m'' where "m'' = m'\<lparr>event_subscribers := (event_subscribers m')[unat event_id :=
                     (event_subscribers m' ! unat event_id)
                       \<lparr>l_subscribers := (l_subscribers (event_subscribers m' ! unat event_id))[i :=
                            (l_subscribers (event_subscribers m' ! unat event_id) ! i)
                              \<lparr>sub_active := False, sub_callback := NULL, sub_user_data := NULL\<rparr>],
                        l_count := l_count (event_subscribers m' ! unat event_id) - 1\<rparr>],
                  stats := (stats m')\<lparr>subscribers_total := subscribers_total (stats m') - 1\<rparr>\<rparr>"
    have twice: "snd (em_unsubscribe ?once event_id callback) = Some m''"
      unfolding once' m''_def using em_unsubscribe_found [OF valid f] by simp
    have len': "unat event_id < length (event_subscribers m')"
      using len(1) by (simp add: m'_def)
    have "l_count (event_subscribers m'' ! unat event_id) = l_count ?list"
      using len' by (simp add: m''_def nth') (simp add: list'_def)
    moreover have "subscribers_total (stats m'') = subscribers_total (stats m)"
      by (simp add: m''_def m'_def)
    ultimately show ?thesis
      using twice valid(2) by (simp add: em_get_subscriber_count_def)
  qed
qed

lemma one_subscriber_example:
  "map_option (\<lambda>m. (manager_arrays m, is_subscribed (Some m) 0 12))
     (fst (run [Subscribe 0 11 NULL EM_PRIORITY_LOW])) = Some (True, False)"
  by code_simp

theorem em_subscribe_unsubscribe_roundtrip_witness:
  "\<exists>m m''. fst (run [Subscribe 0 11 NULL EM_PRIORITY_LOW]) = Some m \<and>
           manager_arrays m \<and>
           snd (em_unsubscribe (snd (em_subscribe (Some m) 0 12 NULL EM_PRIORITY_HIGH)) 0 12)
             = Some m'' \<and>
           em_get_subscriber_count (Some m'') 0 = em_get_subscriber_count (Some m) 0 \<and>
           subscribers_total (stats m'') = subscribers_total (stats m)"
proof -
  let ?ops = "[Subscribe 0 11 NULL EM_PRIORITY_LOW]"
  obtain m where m: "fst (run ?ops) = Some m"
    using run_inv [of ?ops] by blast
  have ex: "manager_arrays m" "\<not> is_subscribed (Some m) 0 12"
    using one_subscriber_example by (simp_all add: m)
  show ?thesis
    using em_subscribe_unsubscribe_roundtrip [OF ex, of NULL EM_PRIORITY_HIGH] m ex(1)
    by auto
qed

text \<open>
  C7 as stated fails for a pair that is subscribed already: callback 11 is subscribed to
  event 0, so the count and \<open>subscribers_total\<close> are 1; subscribing it again changes
  nothing, and the unsubscribe that follows removes it, so both are 0 afterwards.
\<close>

theorem em_subscribe_unsubscribe_counterexample:
  "em_get_subscriber_count (fst (run [Subscribe 0 11 NULL EM_PRIORITY_NORMAL])) 0 = 1 \<and>
   map_option subscribers_total
     (snd (em_get_stats (fst (run [Subscribe 0 11 NULL EM_PRIORITY_NORMAL])) True)) = Some 1 \<and>
   em_get_subscriber_count
     (snd (em_unsubscribe
        (snd (em_subscribe (fst (run [Subscribe 0 11 NULL EM_PRIORITY_NORMAL]))
                0 11 NULL EM_PRIORITY_NORMAL)) 0 11)) 0 = 0 \<and>
   map_option subscribers_total
     (snd (em_get_stats
        (snd (em_unsubscribe
           (snd (em_subscribe (fst (run [Subscribe 0 11 NULL EM_PRIORITY_NORMAL]))
                   0 11 NULL EM_PRIORITY_NORMAL)) 0 11)) True)) = Some 0"
  by code_simp

section \<open>Statistics reset\<close>

text \<open>
  C8. \<open>em_reset_stats\<close> on a valid handle returns \<open>EM_OK\<close>; afterwards
  \<open>events_published\<close>, \<open>events_processed\<close> and \<open>async_queue_max\<close> are zero,
  \<open>subscribers_total\<close> and \<open>async_queue_current\<close> have their old values, and the
  subscriber tables, the queues and the running flag are the old ones.
\<close>

theorem em_reset_stats_frame:
  "\<exists>m'. em_reset_stats (Some m) = (EM_OK, Some m') \<and>
        events_published (stats m') = 0 \<and>
        events_processed (stats m') = 0 \<and>
        async_queue_max (stats m') = 0 \<and>
        subscribers_total (stats m') = subscribers_total (stats m) \<and>
        async_queue_current (stats m') = async_queue_current (stats m) \<and>
        event_subscribers m' = event_subscribers m \<and>
        async_queues m' = async_queues m \<and>
        running m' = running m"
  by (simp add: em_reset_stats_def zero_stats_def)

section \<open>Subscriber counts on invalid arguments\<close>

text \<open>
  C9. For the \<open>NULL\<close> handle, or an event id that is at least \<open>EM_MAX_EVENT_TYPES\<close>,
  \<open>em_get_subscriber_count\<close> returns -1 and \<open>em_has_subscribers\<close> returns false.
\<close>

theorem em_get_subscriber_count_invalid:
  assumes "handle = None \<or> EM_MAX_EVENT_TYPES \<le> unat event_id"
  shows "em_get_subscriber_count handle event_id = - 1 \<and>
         \<not> em_has_subscribers handle event_id"
  using assms
  by (auto simp: em_get_subscriber_count_def em_has_subscribers_def split: option.splits)

theorem em_get_subscriber_count_invalid_witness:
  "(em_get_subscriber_count None 0 = - 1 \<and> \<not> em_has_subscribers None 0) \<and>
   (EM_MAX_EVENT_TYPES \<le> unat (64 :: 32 word) \<and>
    em_get_subscriber_count (em_create True) 64 = - 1 \<and>
    \<not> em_has_subscribers (em_create True) 64)"
proof -
  have big: "EM_MAX_EVENT_TYPES \<le> unat (64 :: 32 word)"
    by (simp add: EM_MAX_EVENT_TYPES_def)
  show ?thesis
    using em_get_subscriber_count_invalid [of None 0]
          em_get_subscriber_count_invalid [of "em_create True" 64] big
    by simp
qed

section \<open>Dispatch order\<close>

text \<open>
  C3, evaluated on the code. Three callbacks subscribe to event 0: 11 with priority LOW,
  12 with NORMAL, 13 with HIGH; then 12 unsubscribes, which leaves an inactive slot
  between the two others. The insertion sort never compares across the inactive slot, so
  a synchronous publish invokes callback 11 (LOW) before callback 13 (HIGH).
\<close>

theorem dispatch_order_across_gap:
  "em_get_subscriber_count
     (fst (run [Subscribe 0 11 NULL EM_PRIORITY_LOW, Subscribe 0 12 NULL EM_PRIORITY_NORMAL,
                Subscribe 0 13 NULL EM_PRIORITY_HIGH, Unsubscribe 0 12])) 0 = 2 \<and>
   fst (em_publish_sync
     (fst (run [Subscribe 0 11 NULL EM_PRIORITY_LOW, Subscribe 0 12 NULL EM_PRIORITY_NORMAL,
                Subscribe 0 13 NULL EM_PRIORITY_HIGH, Unsubscribe 0 12])) 0 NULL) = EM_OK \<and>
   snd (snd (em_publish_sync
     (fst (run [Subscribe 0 11 NULL EM_PRIORITY_LOW, Subscribe 0 12 NULL EM_PRIORITY_NORMAL,
                Subscribe 0 13 NULL EM_PRIORITY_HIGH, Unsubscribe 0 12])) 0 NULL))
     = [(11, 0, NULL, NULL), (13, 0, NULL, NULL)]"
  by code_simp

end
